theory Spec2Isabelle
  imports Main "HOL-Library.Word" "HOL-Library.Sublist"
begin

unbundle bit_operations_syntax

section \<open>AirQ firmware: data model\<close>

text \<open>
  A shallow embedding of the storage, clock, chunked-transfer and radio-task code of
  \<^verbatim>\<open>AirQ.ino\<close>. Global variables of the sketch become fields of records that
  are passed explicitly; calls into the Arduino libraries (Preferences, LittleFS, FreeRTOS)
  whose outcome the sketch cannot control become parameters.
\<close>

type_synonym byte = "8 word"

text \<open>\<^verbatim>\<open>struct SensorData\<close>: the full reading kept in memory.\<close>

record SensorData =
  pm1_0_standard :: "16 word"
  pm2_5_standard :: "16 word"
  pm10_0_standard :: "16 word"
  s_pm1_0_env :: "16 word"
  s_pm2_5_env :: "16 word"
  s_pm10_0_env :: "16 word"
  particles_03um :: "16 word"
  particles_05um :: "16 word"
  particles_10um :: "16 word"
  particles_25um :: "16 word"
  particles_50um :: "16 word"
  particles_100um :: "16 word"
  s_battery_level :: "8 word"
  s_timestamp :: "32 word"

text \<open>\<^verbatim>\<open>struct LogData\<close>: the compact record written to flash. The fields that
  \<^verbatim>\<open>SensorData\<close> shares with it carry the prefix \<open>s_\<close> above, since two records
  of one theory cannot share a field name without qualification.\<close>

record LogData =
  timestamp :: "32 word"
  pm1_0_env :: "16 word"
  pm2_5_env :: "16 word"
  pm10_0_env :: "16 word"
  battery_level :: "8 word"

section \<open>Clock gate\<close>

text \<open>
  \<^verbatim>\<open>rtcTimeSet\<close>, \<^verbatim>\<open>rtcTimeAccurate\<close> and the system clock that
  \<^verbatim>\<open>settimeofday\<close> writes and \<^verbatim>\<open>gettimeofday\<close> reads (\<open>tv_sec\<close>, in seconds).
\<close>

record clock =
  rtcTimeSet :: bool
  rtcTimeAccurate :: bool
  tv_sec :: int

definition initRTC :: "clock \<Rightarrow> clock" where
  "initRTC c = c\<lparr>rtcTimeAccurate := False, rtcTimeSet := False\<rparr>"

definition setRTCTime :: "int \<Rightarrow> clock \<Rightarrow> clock" where
  "setRTCTime epochTime c = c\<lparr>tv_sec := epochTime, rtcTimeSet := True\<rparr>"

definition setRTCTimeFromBLE :: "int \<Rightarrow> clock \<Rightarrow> clock" where
  "setRTCTimeFromBLE epochTime c = (setRTCTime epochTime c)\<lparr>rtcTimeAccurate := True\<rparr>"

text \<open>\<^verbatim>\<open>getRTCTime\<close>; \<open>millis\<close> is the uptime in milliseconds at the call.\<close>

definition getRTCTime :: "clock \<Rightarrow> nat \<Rightarrow> int" where
  "getRTCTime c millis =
     (if \<not> rtcTimeSet c then 1609459200 + int (millis div 1000) else tv_sec c)"

text \<open>The write handler of the clock characteristic (\<^verbatim>\<open>RTC_TIME_UUID\<close> in
  \<^verbatim>\<open>onWrite\<close>): values at or below the sanity floor are rejected.\<close>

definition onWrite_RTC_TIME :: "int \<Rightarrow> clock \<Rightarrow> clock" where
  "onWrite_RTC_TIME newTime c =
     (if newTime > 1609459200 then setRTCTimeFromBLE newTime c else c)"

text \<open>Everything that changes the clock state: boot, a local clock write, a clock write
  through the BLE characteristic, and the passing of time.\<close>

datatype clock_op =
    Boot
  | LocalWrite int
  | BLEWrite int
  | Elapse nat

fun clock_step :: "clock_op \<Rightarrow> clock \<Rightarrow> clock" where
  "clock_step Boot c = initRTC c"
| "clock_step (LocalWrite t) c = setRTCTime t c"
| "clock_step (BLEWrite t) c = onWrite_RTC_TIME t c"
| "clock_step (Elapse n) c = c\<lparr>tv_sec := tv_sec c + int n\<rparr>"

fun clock_run :: "clock_op list \<Rightarrow> clock \<Rightarrow> clock" where
  "clock_run [] c = c"
| "clock_run (op # ops) c = clock_run ops (clock_step op c)"

text \<open>The three states of the gate, read off the two flags.\<close>

datatype gate_state = Unset | SetInaccurate | SetAccurate

definition gate :: "clock \<Rightarrow> gate_state" where
  "gate c = (if rtcTimeAccurate c then SetAccurate
             else if rtcTimeSet c then SetInaccurate else Unset)"

section \<open>Arduino strings and C integer arithmetic\<close>

text \<open>\<^verbatim>\<open>String(n)\<close> for an integer: its decimal digits, with a minus sign when negative.\<close>

definition digit_char :: "nat \<Rightarrow> char" where
  "digit_char d = ''0123456789'' ! d"

fun dec_nat :: "nat \<Rightarrow> string" where
  "dec_nat n =
     (if n < 10 then [digit_char n] else dec_nat (n div 10) @ [digit_char (n mod 10)])"

declare dec_nat.simps [simp del]

definition String_int :: "int \<Rightarrow> string" where
  "String_int n = (if n < 0 then CHR ''-'' # dec_nat (nat (- n)) else dec_nat (nat n))"

text \<open>C's \<^verbatim>\<open>/\<close> and \<^verbatim>\<open>%\<close> on \<^verbatim>\<open>int\<close> truncate towards zero.\<close>

definition c_div :: "int \<Rightarrow> int \<Rightarrow> int" where
  "c_div a b = sgn a * sgn b * (\<bar>a\<bar> div \<bar>b\<bar>)"

definition c_mod :: "int \<Rightarrow> int \<Rightarrow> int" where
  "c_mod a b = a - b * c_div a b"

definition MAX_LOG_ENTRIES :: int where "MAX_LOG_ENTRIES = 100000"
definition MAX_CHUNK_SIZE :: int where "MAX_CHUNK_SIZE = 400"
definition ENTRIES_PER_BATCH :: int where "ENTRIES_PER_BATCH = 200"
definition ERROR_FLASH_WRITE_FAILED :: nat where "ERROR_FLASH_WRITE_FAILED = 5"

section \<open>Log record codec\<close>

text \<open>
  The sketch writes a record as the \<^verbatim>\<open>sizeof(LogData)\<close> bytes at its address and reads
  it back the same way. On the ESP32-S3 (little-endian, structs aligned to their widest
  member) these are the eleven bytes of the fields, in declaration order, and one byte of
  trailing padding. The sketch builds a record field by field in a local variable and
  never writes the padding byte, so the byte that reaches the flash is whatever the stack
  held: it is the argument \<open>pad\<close> of \<open>LogData_bytes\<close>. Reading a record ignores it.
  \<^verbatim>\<open>SensorData\<close> is twelve 16-bit fields, the battery byte at offset 24 and the
  timestamp at offset 28.
\<close>

definition sizeof_LogData :: nat where "sizeof_LogData = 12"
definition sizeof_SensorData :: nat where "sizeof_SensorData = 32"

definition bytes16 :: "16 word \<Rightarrow> byte list" where
  "bytes16 w = [ucast w, ucast (drop_bit 8 w)]"

definition bytes32 :: "32 word \<Rightarrow> byte list" where
  "bytes32 w = [ucast w, ucast (drop_bit 8 w), ucast (drop_bit 16 w), ucast (drop_bit 24 w)]"

definition word16_at :: "byte list \<Rightarrow> nat \<Rightarrow> 16 word" where
  "word16_at m k = ucast (m ! k) OR push_bit 8 (ucast (m ! (k + 1)))"

definition word32_at :: "byte list \<Rightarrow> nat \<Rightarrow> 32 word" where
  "word32_at m k = ucast (m ! k) OR push_bit 8 (ucast (m ! (k + 1)))
     OR push_bit 16 (ucast (m ! (k + 2))) OR push_bit 24 (ucast (m ! (k + 3)))"

definition LogData_bytes :: "byte \<Rightarrow> LogData \<Rightarrow> byte list" where
  "LogData_bytes pad e =
     bytes32 (timestamp e) @ bytes16 (pm1_0_env e) @ bytes16 (pm2_5_env e)
       @ bytes16 (pm10_0_env e) @ [battery_level e, pad]"

text \<open>The struct held by a memory image of \<^verbatim>\<open>sizeof(LogData)\<close> bytes.\<close>

definition LogData_of_bytes :: "byte list \<Rightarrow> LogData" where
  "LogData_of_bytes m =
     \<lparr>timestamp = word32_at m 0, pm1_0_env = word16_at m 4, pm2_5_env = word16_at m 6,
      pm10_0_env = word16_at m 8, battery_level = m ! 10\<rparr>"

text \<open>The 32 bytes of a \<^verbatim>\<open>SensorData\<close>, as earlier firmware stored them under the
  legacy keys. The sketch only reads such blobs; the three bytes of padding after the
  battery byte are zero in the blobs built here.\<close>

definition SensorData_bytes :: "SensorData \<Rightarrow> byte list" where
  "SensorData_bytes x =
     bytes16 (pm1_0_standard x) @ bytes16 (pm2_5_standard x) @ bytes16 (pm10_0_standard x)
       @ bytes16 (s_pm1_0_env x) @ bytes16 (s_pm2_5_env x) @ bytes16 (s_pm10_0_env x)
       @ bytes16 (particles_03um x) @ bytes16 (particles_05um x) @ bytes16 (particles_10um x)
       @ bytes16 (particles_25um x) @ bytes16 (particles_50um x) @ bytes16 (particles_100um x)
       @ [s_battery_level x, 0, 0, 0] @ bytes32 (s_timestamp x)"

text \<open>The conversion of a legacy \<^verbatim>\<open>SensorData\<close> image of 32 bytes to a
  \<^verbatim>\<open>LogData\<close>, field by field, as \<^verbatim>\<open>loadNextBatch\<close> and
  \<^verbatim>\<open>migrateLegacyData\<close> do it.\<close>

definition LogData_of_SensorData_bytes :: "byte list \<Rightarrow> LogData" where
  "LogData_of_SensorData_bytes m =
     \<lparr>timestamp = word32_at m 28, pm1_0_env = word16_at m 6, pm2_5_env = word16_at m 8,
      pm10_0_env = word16_at m 10, battery_level = m ! 24\<rparr>"

text \<open>\<^verbatim>\<open>file.read(buf, n)\<close> into a buffer that was zeroed before: the first \<open>n\<close>
  bytes of the file, and zeros where the file is shorter.\<close>

definition read_into_zeroed :: "nat \<Rightarrow> byte list \<Rightarrow> byte list" where
  "read_into_zeroed n content = take n content @ replicate (n - length content) 0"

text \<open>The text of one record in the historical-data stream.\<close>

definition serialize :: "LogData \<Rightarrow> string" where
  "serialize e =
     dec_nat (unat (timestamp e)) @ '','' @ dec_nat (unat (pm1_0_env e)) @ '',''
       @ dec_nat (unat (pm2_5_env e)) @ '','' @ dec_nat (unat (pm10_0_env e)) @ '',''
       @ dec_nat (unat (battery_level e)) @ '';''"

section \<open>Storage backends\<close>

text \<open>
  The Preferences (NVS) namespace as a typed key-value map, and LittleFS as a map from
  paths to file contents with a set of directories. The reads follow the Arduino-ESP32
  library: \<^verbatim>\<open>getBytes\<close> returns the stored length when the key holds a blob that fits
  the buffer and 0 otherwise, \<^verbatim>\<open>getInt\<close> returns the default unless the key holds
  an integer.
\<close>

datatype pval = PInt int | PBool bool | PBytes "byte list"

type_synonym prefs = "string \<Rightarrow> pval option"

record device =
  logIndex :: int
  useLittleFS :: bool
  preferences :: prefs
  files :: "string \<Rightarrow> byte list option"
  dirs :: "string set"
  lastError :: nat

text \<open>
  What the flash does is not in the sketch's hands: whether a write to NVS succeeds, how
  many free NVS entries are reported, whether LittleFS can create a directory or open a
  file, how many bytes of a write reach the file, and whether LittleFS mounts at boot: as
  it is, after the formatting that \<^verbatim>\<open>begin(true)\<close> asks for when the mount fails,
  or not at all. Nor is the content of stack memory that the sketch sends to the flash
  without having written it, the padding byte of a record built in a local variable.
  They are parameters, and may depend on the whole present state.
\<close>

datatype mount_outcome = Mounted | Formatted | MountFailed

record platform =
  nvs_put_ok :: "device \<Rightarrow> string \<Rightarrow> pval \<Rightarrow> bool"
  nvs_freeEntries :: "device \<Rightarrow> nat"
  fs_mkdir_ok :: "device \<Rightarrow> string \<Rightarrow> bool"
  fs_open_w_ok :: "device \<Rightarrow> string \<Rightarrow> bool"
  fs_open_r_ok :: "device \<Rightarrow> string \<Rightarrow> bool"
  fs_written :: "device \<Rightarrow> string \<Rightarrow> nat \<Rightarrow> nat"
  uninit_byte :: "device \<Rightarrow> byte"
  fs_begin :: "device \<Rightarrow> mount_outcome"

definition prefs_getBytes :: "prefs \<Rightarrow> string \<Rightarrow> nat \<Rightarrow> nat \<times> byte list" where
  "prefs_getBytes p key maxLen =
     (case p key of
        Some (PBytes b) \<Rightarrow> if length b \<le> maxLen then (length b, b) else (0, [])
      | _ \<Rightarrow> (0, []))"

definition prefs_getInt :: "prefs \<Rightarrow> string \<Rightarrow> int \<Rightarrow> int" where
  "prefs_getInt p key dflt = (case p key of Some (PInt n) \<Rightarrow> n | _ \<Rightarrow> dflt)"

definition prefs_remove :: "string \<Rightarrow> device \<Rightarrow> device" where
  "prefs_remove key d = d\<lparr>preferences := (preferences d)(key := None)\<rparr>"

text \<open>\<^verbatim>\<open>putBytes\<close> and \<^verbatim>\<open>putInt\<close>: whether the value was written (the calls
  return 0 bytes when it was not, and the store is then as before) and the state after.\<close>

definition prefs_put :: "platform \<Rightarrow> string \<Rightarrow> pval \<Rightarrow> device \<Rightarrow> bool \<times> device" where
  "prefs_put pf key v d =
     (if nvs_put_ok pf d key v then (True, d\<lparr>preferences := (preferences d)(key \<mapsto> v)\<rparr>)
      else (False, d))"

definition LittleFS_exists :: "device \<Rightarrow> string \<Rightarrow> bool" where
  "LittleFS_exists d p = (p \<in> dirs d \<or> files d p \<noteq> None)"

definition getLittleFSLogPath :: "int \<Rightarrow> string" where
  "getLittleFSLogPath index =
     ''/logs/'' @ String_int (c_div index 1000) @ ''/'' @ String_int (c_mod index 1000)
       @ ''.log''"

text \<open>\<^verbatim>\<open>logPath.substring(0, logPath.lastIndexOf('/'))\<close>; every log path has a slash.\<close>

definition lastIndexOf :: "char \<Rightarrow> string \<Rightarrow> int" where
  "lastIndexOf c s =
     (if c \<in> set s then int (length s) - 1 - int (length (takeWhile (\<lambda>x. x \<noteq> c) (rev s)))
      else - 1)"

definition dirPath_of :: "string \<Rightarrow> string" where
  "dirPath_of logPath = take (nat (lastIndexOf (CHR ''/'') logPath)) logPath"

definition metadata_path :: string where
  "metadata_path = ''/logs/metadata.txt''"

text \<open>\<^verbatim>\<open>metaFile.println(logIndex)\<close>: the decimal text, carriage return, line feed.\<close>

definition text_bytes :: "string \<Rightarrow> byte list" where
  "text_bytes s = map (\<lambda>c. word_of_nat (of_char c)) s"

definition write_metadata :: "platform \<Rightarrow> device \<Rightarrow> device" where
  "write_metadata pf d =
     (if fs_open_w_ok pf d metadata_path
      then d\<lparr>files := (files d)(metadata_path \<mapsto>
                text_bytes (String_int (logIndex d) @ [CHR 0x0D, CHR 0x0A]))\<rparr>
      else d)"

text \<open>Opening a file for writing truncates it; the write then leaves as many bytes as
  reached the flash.\<close>

definition write_log_file :: "platform \<Rightarrow> string \<Rightarrow> byte list \<Rightarrow> device \<Rightarrow> nat \<times> device" where
  "write_log_file pf path bytes d =
     (let n = min (length bytes) (fs_written pf d path (length bytes))
      in (n, d\<lparr>files := (files d)(path \<mapsto> take n bytes)\<rparr>))"

definition ensure_dir :: "platform \<Rightarrow> string \<Rightarrow> device \<Rightarrow> bool \<times> device" where
  "ensure_dir pf dirPath d =
     (if LittleFS_exists d dirPath then (True, d)
      else if fs_mkdir_ok pf d dirPath then (True, d\<lparr>dirs := insert dirPath (dirs d)\<rparr>)
      else (False, d))"

text \<open>\<^verbatim>\<open>saveLogToLittleFS\<close>; the flag tells whether the record was saved.\<close>

definition saveLogToLittleFS :: "platform \<Rightarrow> LogData \<Rightarrow> device \<Rightarrow> bool \<times> device" where
  "saveLogToLittleFS pf logEntry d =
     (let logPath = getLittleFSLogPath (logIndex d);
          (made, d1) = ensure_dir pf (dirPath_of logPath) d
      in if \<not> made then (False, d1\<lparr>lastError := ERROR_FLASH_WRITE_FAILED\<rparr>)
         else if \<not> fs_open_w_ok pf d1 logPath
         then (False, d1\<lparr>lastError := ERROR_FLASH_WRITE_FAILED\<rparr>)
         else let (bytesWritten, d2) =
                    write_log_file pf logPath (LogData_bytes (uninit_byte pf d) logEntry) d1
              in if bytesWritten \<noteq> sizeof_LogData
                 then (False, d2\<lparr>lastError := ERROR_FLASH_WRITE_FAILED\<rparr>)
                 else (True, write_metadata pf (d2\<lparr>logIndex := logIndex d2 + 1\<rparr>)))"

text \<open>\<^verbatim>\<open>readLogFromLittleFS\<close>: a missing or unopenable file gives the zeroed record; a
  short file is reported on the serial line only, and the record read so far is returned.\<close>

definition readLogFromLittleFS :: "platform \<Rightarrow> device \<Rightarrow> int \<Rightarrow> LogData" where
  "readLogFromLittleFS pf d index =
     (let logPath = getLittleFSLogPath index
      in if \<not> LittleFS_exists d logPath then LogData_of_bytes (replicate sizeof_LogData 0)
         else if \<not> fs_open_r_ok pf d logPath then LogData_of_bytes (replicate sizeof_LogData 0)
         else LogData_of_bytes
                (read_into_zeroed sizeof_LogData
                   (case files d logPath of Some content \<Rightarrow> content | None \<Rightarrow> [])))"

section \<open>Appending a reading: \<^verbatim>\<open>logDataToFlash\<close>\<close>

text \<open>Every way the function returns is a value of \<open>log_outcome\<close>.\<close>

datatype log_outcome =
    SkippedNotAccurate
  | SkippedInvalidTime
  | SavedLittleFS
  | FailedLittleFS
  | SavedFirstTry
  | SavedAfterCleanup
  | WriteFailed

definition log_key :: "int \<Rightarrow> string" where
  "log_key index = ''log'' @ String_int (c_mod index MAX_LOG_ENTRIES)"

definition legacy_key :: "int \<Rightarrow> string" where
  "legacy_key i = ''log_'' @ String_int i"

text \<open>The cleanup before the write: with fewer than ten free entries and a wrapped
  buffer, the slot about to be overwritten is removed.\<close>

definition targeted_cleanup :: "platform \<Rightarrow> device \<Rightarrow> device" where
  "targeted_cleanup pf d =
     (if nvs_freeEntries pf d < 10 \<and> logIndex d \<ge> MAX_LOG_ENTRIES
      then prefs_remove (log_key (logIndex d - MAX_LOG_ENTRIES)) d
      else d)"

text \<open>The cleanup after a failed write: ten removals, of the oldest slots of a wrapped
  buffer or else of the legacy keys \<^verbatim>\<open>log_0\<close> to \<^verbatim>\<open>log_9\<close>.\<close>

definition emergency_cleanup :: "device \<Rightarrow> device" where
  "emergency_cleanup d =
     (if logIndex d \<ge> MAX_LOG_ENTRIES
      then fold (\<lambda>i. prefs_remove (log_key (logIndex d - MAX_LOG_ENTRIES + int i))) [0..<10] d
      else fold (\<lambda>i. prefs_remove (legacy_key (int i))) [0..<10] d)"

text \<open>After a successful write: the index advances and is stored; a failure to store it
  is reported on the serial line only.\<close>

definition advance_logIndex :: "platform \<Rightarrow> device \<Rightarrow> device" where
  "advance_logIndex pf d =
     (let d' = d\<lparr>logIndex := logIndex d + 1\<rparr>
      in snd (prefs_put pf ''logIndex'' (PInt (logIndex d')) d'))"

text \<open>The key-value branch of \<^verbatim>\<open>logDataToFlash\<close>. The first write and the retry
  send the same local variable, hence the same image, padding byte included.\<close>

definition logToPreferences :: "platform \<Rightarrow> LogData \<Rightarrow> device \<Rightarrow> log_outcome \<times> device" where
  "logToPreferences pf logEntry d =
     (let key = log_key (logIndex d);
          image = PBytes (LogData_bytes (uninit_byte pf d) logEntry);
          (result, d1) = prefs_put pf key image (targeted_cleanup pf d)
      in if result then (SavedFirstTry, advance_logIndex pf d1)
         else let (result2, d2) = prefs_put pf key image
                    (emergency_cleanup (d1\<lparr>lastError := ERROR_FLASH_WRITE_FAILED\<rparr>))
              in if result2 then (SavedAfterCleanup, advance_logIndex pf d2)
                 else (WriteFailed, d2))"

text \<open>The five assignments that fill the local variable \<^verbatim>\<open>logEntry\<close>.\<close>

definition make_logEntry :: "int \<Rightarrow> SensorData \<Rightarrow> LogData" where
  "make_logEntry currentTime data =
     \<lparr>timestamp = word_of_int currentTime, pm1_0_env = s_pm1_0_env data,
      pm2_5_env = s_pm2_5_env data, pm10_0_env = s_pm10_0_env data,
      battery_level = s_battery_level data\<rparr>"

definition logDataToFlash ::
  "platform \<Rightarrow> clock \<Rightarrow> nat \<Rightarrow> SensorData \<Rightarrow> device \<Rightarrow> log_outcome \<times> device" where
  "logDataToFlash pf clk millis data d =
     (if \<not> rtcTimeAccurate clk then (SkippedNotAccurate, d)
      else let currentTime = getRTCTime clk millis
           in if currentTime < 1609459200 then (SkippedInvalidTime, d)
              else if useLittleFS d
              then (case saveLogToLittleFS pf (make_logEntry currentTime data) d of
                      (saved, d') \<Rightarrow> (if saved then SavedLittleFS else FailedLittleFS, d'))
              else logToPreferences pf (make_logEntry currentTime data) d)"

section \<open>Chunked transfer of the history\<close>

record session =
  loggedDataCache :: string
  totalChunks :: int
  currentChunk :: int
  totalEntriesToSend :: int
  entriesProcessed :: int
  startEntryIndex :: int

text \<open>
  The body of the loop of \<^verbatim>\<open>loadNextBatch\<close> for one logical index: LittleFS first
  when it is active (a record with a zero timestamp counts as not read), then the
  Preferences key of the slot, then the legacy key holding a whole \<^verbatim>\<open>SensorData\<close>.
\<close>

definition load_entry :: "platform \<Rightarrow> device \<Rightarrow> int \<Rightarrow> LogData option" where
  "load_entry pf d actualIndex =
     (if useLittleFS d \<and> timestamp (readLogFromLittleFS pf d actualIndex) > 0
      then Some (readLogFromLittleFS pf d actualIndex)
      else case prefs_getBytes (preferences d) (log_key actualIndex) sizeof_LogData of
        (bytesRead, b) \<Rightarrow>
          if bytesRead = sizeof_LogData then Some (LogData_of_bytes b)
          else case prefs_getBytes (preferences d)
                      (legacy_key (c_mod actualIndex MAX_LOG_ENTRIES)) sizeof_SensorData of
            (legacyBytesRead, lb) \<Rightarrow>
              if legacyBytesRead = sizeof_SensorData
              then Some (LogData_of_SensorData_bytes lb)
              else None)"

definition entry_text :: "platform \<Rightarrow> device \<Rightarrow> int \<Rightarrow> string" where
  "entry_text pf d actualIndex =
     (case load_entry pf d actualIndex of Some e \<Rightarrow> serialize e | None \<Rightarrow> [])"

function load_loop :: "platform \<Rightarrow> device \<Rightarrow> int \<Rightarrow> int \<Rightarrow> int \<Rightarrow> string \<Rightarrow> string" where
  "load_loop pf d start i batchEnd cache =
     (if i < batchEnd
      then load_loop pf d start (i + 1) batchEnd (cache @ entry_text pf d (start + i))
      else cache)"
  by pat_completeness auto
termination
  by (relation "measure (\<lambda>(pf, d, start, i, batchEnd, cache). nat (batchEnd - i))") auto

declare load_loop.simps [simp del]

definition loadNextBatch :: "platform \<Rightarrow> device \<Rightarrow> session \<Rightarrow> session" where
  "loadNextBatch pf d s =
     (let batchEnd = min (entriesProcessed s + ENTRIES_PER_BATCH) (totalEntriesToSend s);
          cache = load_loop pf d (startEntryIndex s) (entriesProcessed s) batchEnd []
      in s\<lparr>loggedDataCache := (if cache = [] then ''No data available'' else cache),
            entriesProcessed := batchEnd\<rparr>)"

definition prepareLoggedDataForChunking :: "platform \<Rightarrow> device \<Rightarrow> session \<Rightarrow> session" where
  "prepareLoggedDataForChunking pf d s =
     loadNextBatch pf d
       (s\<lparr>startEntryIndex := max 0 (logIndex d - MAX_LOG_ENTRIES),
          totalEntriesToSend := min (logIndex d) MAX_LOG_ENTRIES,
          entriesProcessed := 0,
          totalChunks :=
            max 1 (c_div (min (logIndex d) MAX_LOG_ENTRIES * 30 + MAX_CHUNK_SIZE - 1)
                     MAX_CHUNK_SIZE),
          currentChunk := 0,
          loggedDataCache := []\<rparr>)"

text \<open>\<^verbatim>\<open>sendLoggedDataChunk\<close>: the payload notified on the historical-data
  characteristic, and the session after.\<close>

definition sendLoggedDataChunk :: "platform \<Rightarrow> device \<Rightarrow> session \<Rightarrow> string \<times> session" where
  "sendLoggedDataChunk pf d s =
     (let s1 = (if length (loggedDataCache s) = 0
                then prepareLoggedDataForChunking pf d s else s);
          needMoreData = (int (length (loggedDataCache s1)) < MAX_CHUNK_SIZE
                          \<and> entriesProcessed s1 < totalEntriesToSend s1);
          s2 = (if needMoreData then loadNextBatch pf d s1 else s1)
      in if length (loggedDataCache s2) > 0
         then let endPos = nat (min MAX_CHUNK_SIZE (int (length (loggedDataCache s2))))
              in (take endPos (loggedDataCache s2),
                  s2\<lparr>loggedDataCache :=
                       (if endPos < length (loggedDataCache s2)
                        then drop endPos (loggedDataCache s2) else [])\<rparr>)
         else if entriesProcessed s2 \<ge> totalEntriesToSend s2 then ([], s2)
         else (''No data available'', s2))"

text \<open>The chunk-request branch of \<^verbatim>\<open>onWrite\<close>, on the parsed integer: \<open>-1\<close>
  prepares, an index in range is served at once, anything else is rejected.\<close>

definition onWrite_CHUNK_REQUEST ::
  "platform \<Rightarrow> device \<Rightarrow> int \<Rightarrow> session \<Rightarrow> string option \<times> session" where
  "onWrite_CHUNK_REQUEST pf d requestedChunk s =
     (if requestedChunk = - 1 then (None, prepareLoggedDataForChunking pf d s)
      else if requestedChunk \<ge> 0 \<and> requestedChunk < totalChunks s
      then (case sendLoggedDataChunk pf d (s\<lparr>currentChunk := requestedChunk\<rparr>) of
              (chunkData, s') \<Rightarrow> (Some chunkData, s'))
      else (None, s))"

text \<open>A peer that writes the given chunk indices one after the other, and the payloads
  it is sent.\<close>

fun request_chunks ::
  "platform \<Rightarrow> device \<Rightarrow> int list \<Rightarrow> session \<Rightarrow> string list \<times> session" where
  "request_chunks pf d [] s = ([], s)"
| "request_chunks pf d (k # ks) s =
     (case onWrite_CHUNK_REQUEST pf d k s of
        (r, s') \<Rightarrow>
          (case request_chunks pf d ks s' of
             (rs, s'') \<Rightarrow> ((case r of Some c \<Rightarrow> [c] | None \<Rightarrow> []) @ rs, s'')))"

text \<open>A whole download as the claims describe it: prepare, then request the chunks
  \<open>0\<close> to \<open>totalChunks - 1\<close> in order, and join the payloads.\<close>

definition download :: "platform \<Rightarrow> device \<Rightarrow> session \<Rightarrow> string" where
  "download pf d s =
     (let s0 = snd (onWrite_CHUNK_REQUEST pf d (- 1) s)
      in concat (fst (request_chunks pf d [0..totalChunks s0 - 1] s0)))"

text \<open>The serialized form of all records of the prepared window, in order: what a
  complete download has to reconstruct.\<close>

definition window_text :: "platform \<Rightarrow> device \<Rightarrow> string" where
  "window_text pf d =
     concat (map (entry_text pf d)
       [max 0 (logIndex d - MAX_LOG_ENTRIES) .. logIndex d - 1])"

section \<open>Migration of legacy records\<close>

definition data_key :: "int \<Rightarrow> string" where
  "data_key i = ''data_'' @ String_int i"

text \<open>The part both branches of the loop of \<^verbatim>\<open>migrateLegacyData\<close> share: write the
  record's bytes to the file of the present \<^verbatim>\<open>logIndex\<close> and advance the index. The
  result of \<^verbatim>\<open>mkdir\<close> is not looked at.\<close>

definition migrate_write :: "platform \<Rightarrow> byte list \<Rightarrow> device \<Rightarrow> bool \<times> device" where
  "migrate_write pf bytes d =
     (let logPath = getLittleFSLogPath (logIndex d);
          d1 = snd (ensure_dir pf (dirPath_of logPath) d)
      in if fs_open_w_ok pf d1 logPath
         then (case write_log_file pf logPath bytes d1 of
                 (n, d2) \<Rightarrow>
                   if n = sizeof_LogData then (True, d2\<lparr>logIndex := logIndex d2 + 1\<rparr>)
                   else (False, d2))
         else (False, d1))"

text \<open>One pass of the loop, on the state and the two counters
  \<^verbatim>\<open>migratedCount\<close> and \<^verbatim>\<open>errorCount\<close>.\<close>

definition migrate_entry :: "platform \<Rightarrow> int \<Rightarrow> device \<times> int \<times> int \<Rightarrow> device \<times> int \<times> int" where
  "migrate_entry pf i st =
     (case st of (d, migratedCount, errorCount) \<Rightarrow>
        (case prefs_getBytes (preferences d) (legacy_key i) sizeof_LogData of
           (bytesRead, b) \<Rightarrow>
             if bytesRead = sizeof_LogData
             then (case migrate_write pf b d of
                     (ok, d') \<Rightarrow>
                       if ok then (prefs_remove (legacy_key i) d', migratedCount + 1, errorCount)
                       else (d', migratedCount, errorCount + 1))
             else (case prefs_getBytes (preferences d) (data_key i) sizeof_SensorData of
                     (legacyBytesRead, lb) \<Rightarrow>
                       if legacyBytesRead = sizeof_SensorData
                       then (case migrate_write pf
                                    (LogData_bytes (uninit_byte pf d)
                                       (LogData_of_SensorData_bytes lb)) d of
                               (ok, d') \<Rightarrow>
                                 if ok then (prefs_remove (data_key i) d',
                                             migratedCount + 1, errorCount)
                                 else (d', migratedCount, errorCount + 1))
                       else (d, migratedCount, errorCount + 1))))"

function migrate_loop ::
  "platform \<Rightarrow> int \<Rightarrow> int \<Rightarrow> device \<times> int \<times> int \<Rightarrow> device \<times> int \<times> int" where
  "migrate_loop pf legacyLogIndex i st =
     (if i < legacyLogIndex
      then migrate_loop pf legacyLogIndex (i + 1) (migrate_entry pf i st)
      else st)"
  by pat_completeness auto
termination
  by (relation "measure (\<lambda>(pf, legacyLogIndex, i, st). nat (legacyLogIndex - i))") auto

declare migrate_loop.simps [simp del]

definition migrateLegacyData :: "platform \<Rightarrow> device \<Rightarrow> device" where
  "migrateLegacyData pf d =
     (let legacyLogIndex = prefs_getInt (preferences d) ''logIndex'' 0
      in if legacyLogIndex \<le> 0 then d
         else (case migrate_loop pf legacyLogIndex 0 (d, 0, 0) of
                 (d1, migratedCount, errorCount) \<Rightarrow>
                   let d2 = write_metadata pf d1;
                       d3 = snd (prefs_put pf ''logIndex'' (PInt (logIndex d2)) d2)
                   in if migratedCount > 0 then d3\<lparr>useLittleFS := True\<rparr> else d3))"

text \<open>What the loop tests of a legacy index: whether \<^verbatim>\<open>log_i\<close> holds a blob of the
  size of a \<^verbatim>\<open>LogData\<close>, and whether \<^verbatim>\<open>data_i\<close> holds one of the size of a
  \<^verbatim>\<open>SensorData\<close>.\<close>

definition has_legacy_log :: "prefs \<Rightarrow> int \<Rightarrow> bool" where
  "has_legacy_log p i =
     (fst (prefs_getBytes p (legacy_key i) sizeof_LogData) = sizeof_LogData)"

definition has_legacy_data :: "prefs \<Rightarrow> int \<Rightarrow> bool" where
  "has_legacy_data p i =
     (fst (prefs_getBytes p (data_key i) sizeof_SensorData) = sizeof_SensorData)"

section \<open>Storage start-up in \<^verbatim>\<open>setup\<close>\<close>

text \<open>
  \<^verbatim>\<open>migrateLegacyData\<close> has one caller, \<^verbatim>\<open>setup\<close>, which runs once after every
  reset. The globals of the sketch live in RAM, so a reset puts them back to their
  initialisers (\<^verbatim>\<open>logIndex = 0\<close>, \<^verbatim>\<open>useLittleFS = false\<close>,
  \<^verbatim>\<open>lastError = ERROR_NONE\<close>); the Preferences namespace and the files are flash and
  stay as they are.
\<close>

definition power_on :: "device \<Rightarrow> device" where
  "power_on d = d\<lparr>logIndex := 0, useLittleFS := False, lastError := 0\<rparr>"

text \<open>\<^verbatim>\<open>String::toInt\<close> is C's \<^verbatim>\<open>atol\<close>: white space is skipped, then an optional
  sign and the decimal digits up to the first other character are read; no digits give 0.
  \<^verbatim>\<open>readStringUntil\<close> returns the characters before the terminator.\<close>

definition isspace :: "char \<Rightarrow> bool" where
  "isspace c = (c \<in> set [CHR 0x20, CHR 0x09, CHR 0x0A, CHR 0x0B, CHR 0x0C, CHR 0x0D])"

definition isdigit :: "char \<Rightarrow> bool" where
  "isdigit c = (48 \<le> (of_char c :: nat) \<and> (of_char c :: nat) \<le> 57)"

definition digits_value :: "string \<Rightarrow> nat" where
  "digits_value s = foldl (\<lambda>acc c. 10 * acc + (of_char c - 48)) 0 (takeWhile isdigit s)"

definition String_toInt :: "string \<Rightarrow> int" where
  "String_toInt s =
     (case dropWhile isspace s of
        [] \<Rightarrow> 0
      | c # r \<Rightarrow> if c = CHR ''-'' then - int (digits_value r)
                 else if c = CHR ''+'' then int (digits_value r)
                 else int (digits_value (c # r)))"

definition readStringUntil :: "char \<Rightarrow> string \<Rightarrow> string" where
  "readStringUntil terminator s = takeWhile (\<lambda>c. c \<noteq> terminator) s"

definition bytes_text :: "byte list \<Rightarrow> string" where
  "bytes_text b = map (\<lambda>x. char_of (unat x)) b"

text \<open>\<^verbatim>\<open>initLittleFS\<close>: mount, then make sure of the directory \<^verbatim>\<open>/logs\<close> and of
  the metadata file, which is created holding \<^verbatim>\<open>0\<close>.\<close>

definition initLittleFS :: "platform \<Rightarrow> device \<Rightarrow> bool \<times> device" where
  "initLittleFS pf d =
     (if fs_begin pf d = MountFailed then (False, d)
      else let d0 = (if fs_begin pf d = Formatted
                     then d\<lparr>files := Map.empty, dirs := {}\<rparr> else d);
               (made, d1) = ensure_dir pf ''/logs'' d0
           in if \<not> made then (False, d1)
              else if LittleFS_exists d1 metadata_path then (True, d1)
              else if fs_open_w_ok pf d1 metadata_path
              then (True, d1\<lparr>files := (files d1)(metadata_path \<mapsto>
                             text_bytes (''0'' @ [CHR 0x0D, CHR 0x0A]))\<rparr>)
              else (False, d1))"

text \<open>
  The storage part of \<^verbatim>\<open>setup\<close>, from the call of \<^verbatim>\<open>initLittleFS\<close> to the
  fallback that loads \<^verbatim>\<open>logIndex\<close> from Preferences, with the namespace already
  opened. The index is loaded only after \<^verbatim>\<open>migrateLegacyData\<close> has run: from the
  metadata file when the migration has switched LittleFS on, from Preferences otherwise.
\<close>

definition setup_storage :: "platform \<Rightarrow> device \<Rightarrow> device" where
  "setup_storage pf d =
     (let d3 =
        (case initLittleFS pf d of
           (mounted, d1) \<Rightarrow>
             if mounted
             then let d2 = migrateLegacyData pf d1
                  in if useLittleFS d2
                     then (case files d2 metadata_path of
                             Some content \<Rightarrow>
                               if fs_open_r_ok pf d2 metadata_path
                               then d2\<lparr>logIndex := String_toInt
                                       (readStringUntil (CHR 0x0A) (bytes_text content))\<rparr>
                               else d2
                           | None \<Rightarrow> d2)
                     else d2
             else d1\<lparr>useLittleFS := False\<rparr>)
      in if \<not> useLittleFS d3
         then d3\<lparr>logIndex := prefs_getInt (preferences d3) ''logIndex'' 0\<rparr>
         else d3)"

text \<open>A reset followed by the storage start-up.\<close>

definition boot :: "platform \<Rightarrow> device \<Rightarrow> device" where
  "boot pf d = setup_storage pf (power_on d)"

section \<open>The radio task\<close>

text \<open>
  The globals the loop of \<^verbatim>\<open>BLETask\<close> reads and writes. Pointers are modelled by
  whether they are non-null; \<open>notifications\<close> lists the live-data payloads notified so
  far, oldest first.
\<close>

record ble =
  bleInitialized :: bool
  deviceConnected :: bool
  oldDeviceConnected :: bool
  pServer :: bool
  pLiveDataCharacteristic :: bool
  pBatteryCharacteristic :: bool
  newDataAvailable :: bool
  sharedSensorData :: SensorData
  lastConnectionCheck :: "32 word"
  lastAdvertisingStart :: "32 word"
  liveDataValue :: string
  batteryValue :: byte
  notifications :: "string list"

text \<open>
  What one pass of the loop meets from outside: the two readings of \<^verbatim>\<open>millis()\<close>, whether
  the mutex was obtained within its 100 ms, and whether a call into the BLE library throws.
\<close>

record ble_input =
  millis_check :: "32 word"
  millis_restart :: "32 word"
  mutexTaken :: bool
  bleThrows :: bool

datatype push_outcome =
    NotAttempted
  | SkippedNotReady
  | SkippedNoMutex
  | PushFailed
  | Pushed

definition CONNECTION_CHECK_INTERVAL :: "32 word" where "CONNECTION_CHECK_INTERVAL = 5000"
definition ADVERTISING_RESTART_INTERVAL :: "32 word" where "ADVERTISING_RESTART_INTERVAL = 30000"

definition restartAdvertising :: "ble_input \<Rightarrow> ble \<Rightarrow> ble" where
  "restartAdvertising inp b =
     (if \<not> bleInitialized b \<or> \<not> pServer b then b
      else if bleThrows inp then b
      else b\<lparr>lastAdvertisingStart := millis_restart inp\<rparr>)"

definition checkBLEConnection :: "ble_input \<Rightarrow> ble \<Rightarrow> ble" where
  "checkBLEConnection inp b =
     (let currentTime = millis_check inp
      in if currentTime - lastConnectionCheck b \<ge> CONNECTION_CHECK_INTERVAL
         then let b1 = b\<lparr>lastConnectionCheck := currentTime\<rparr>
              in if \<not> deviceConnected b1
                    \<and> currentTime - lastAdvertisingStart b1 \<ge> ADVERTISING_RESTART_INTERVAL
                 then restartAdvertising inp b1 else b1
         else b)"

definition live_text :: "SensorData \<Rightarrow> string" where
  "live_text latestData =
     dec_nat (unat (s_pm1_0_env latestData)) @ '','' @ dec_nat (unat (s_pm2_5_env latestData))
       @ '','' @ dec_nat (unat (s_pm10_0_env latestData)) @ '',''
       @ dec_nat (unat (s_battery_level latestData))"

definition safeBLEUpdate :: "ble_input \<Rightarrow> ble \<Rightarrow> push_outcome \<times> ble" where
  "safeBLEUpdate inp b =
     (if \<not> bleInitialized b \<or> \<not> deviceConnected b
         \<or> \<not> pLiveDataCharacteristic b \<or> \<not> pBatteryCharacteristic b
      then (SkippedNotReady, b)
      else if \<not> mutexTaken inp then (SkippedNoMutex, b)
      else if bleThrows inp then (PushFailed, b)
      else let latestData = sharedSensorData b;
               b1 = b\<lparr>liveDataValue := live_text latestData\<rparr>
           in if deviceConnected b1
              then (Pushed, b1\<lparr>notifications := notifications b1 @ [live_text latestData],
                                batteryValue := s_battery_level latestData\<rparr>)
              else (SkippedNotReady, b1))"

text \<open>One pass of the loop of \<^verbatim>\<open>BLETask\<close>, with what became of the live-data push.
  The pass is taken as it runs on its own core: the flags are those it finds, and neither
  the sensor task nor a connection callback changes them before the pass ends.\<close>

definition BLETask_iteration :: "ble_input \<Rightarrow> ble \<Rightarrow> push_outcome \<times> ble" where
  "BLETask_iteration inp b =
     (if bleInitialized b
      then let b1 = checkBLEConnection inp b;
               (outcome, b2) =
                 (if deviceConnected b1 \<and> pServer b1 \<and> newDataAvailable b1
                  then (case safeBLEUpdate inp b1 of
                          (r, b') \<Rightarrow> (r, b'\<lparr>newDataAvailable := False\<rparr>))
                  else (NotAttempted, b1));
               b3 = (if bleInitialized b2 \<and> \<not> deviceConnected b2 \<and> oldDeviceConnected b2
                     then b2\<lparr>oldDeviceConnected := deviceConnected b2\<rparr> else b2);
               b4 = (if deviceConnected b3 \<and> \<not> oldDeviceConnected b3
                     then b3\<lparr>oldDeviceConnected := deviceConnected b3\<rparr> else b3)
           in (outcome, b4)
      else (NotAttempted, b))"

section \<open>Example inputs\<close>

text \<open>A flash on which every operation succeeds, and one on which every write fails.\<close>

definition healthy :: platform where
  "healthy = \<lparr>nvs_put_ok = (\<lambda>d key v. True), nvs_freeEntries = (\<lambda>d. 500),
     fs_mkdir_ok = (\<lambda>d p. True), fs_open_w_ok = (\<lambda>d p. True),
     fs_open_r_ok = (\<lambda>d p. True), fs_written = (\<lambda>d p n. n),
     uninit_byte = (\<lambda>d. 0), fs_begin = (\<lambda>d. Mounted)\<rparr>"

definition worn_out :: platform where
  "worn_out = \<lparr>nvs_put_ok = (\<lambda>d key v. False), nvs_freeEntries = (\<lambda>d. 0),
     fs_mkdir_ok = (\<lambda>d p. False), fs_open_w_ok = (\<lambda>d p. False),
     fs_open_r_ok = (\<lambda>d p. True), fs_written = (\<lambda>d p n. 0),
     uninit_byte = (\<lambda>d. 0xFF), fs_begin = (\<lambda>d. Mounted)\<rparr>"

definition blank_device :: device where
  "blank_device = \<lparr>logIndex = 0, useLittleFS = False, preferences = Map.empty,
     files = Map.empty, dirs = {}, lastError = 0\<rparr>"

definition sample_reading :: SensorData where
  "sample_reading = \<lparr>pm1_0_standard = 4, pm2_5_standard = 10, pm10_0_standard = 15,
     s_pm1_0_env = 5, s_pm2_5_env = 12, s_pm10_0_env = 18,
     particles_03um = 900, particles_05um = 250, particles_10um = 40,
     particles_25um = 6, particles_50um = 1, particles_100um = 0,
     s_battery_level = 87, s_timestamp = 1700000000\<rparr>"

definition sample_record :: LogData where
  "sample_record = \<lparr>timestamp = 1700000000, pm1_0_env = 5, pm2_5_env = 12,
     pm10_0_env = 18, battery_level = 87\<rparr>"

definition unsynced :: clock where
  "unsynced = \<lparr>rtcTimeSet = True, rtcTimeAccurate = False, tv_sec = 1700000000\<rparr>"

definition synced :: clock where
  "synced = \<lparr>rtcTimeSet = True, rtcTimeAccurate = True, tv_sec = 1700000000\<rparr>"

text \<open>A wrapped key-value log whose slot 1 holds a record.\<close>

definition wrapped_device :: device where
  "wrapped_device = \<lparr>logIndex = 100000, useLittleFS = False,
     preferences = [''log1'' \<mapsto> PBytes (LogData_bytes 0 sample_record)],
     files = Map.empty, dirs = {}, lastError = 0\<rparr>"

text \<open>A flash whose NVS has room for a write only once slot 1 is gone.\<close>

definition tight_flash :: platform where
  "tight_flash = \<lparr>nvs_put_ok = (\<lambda>d key v. preferences d ''log1'' = None),
     nvs_freeEntries = (\<lambda>d. 3),
     fs_mkdir_ok = (\<lambda>d p. True), fs_open_w_ok = (\<lambda>d p. True),
     fs_open_r_ok = (\<lambda>d p. True), fs_written = (\<lambda>d p n. n),
     uninit_byte = (\<lambda>d. 0xA5), fs_begin = (\<lambda>d. Mounted)\<rparr>"

text \<open>A radio task with a connected peer and fresh data in the shared slot, and one
  pass of its loop with the mutex held elsewhere and with the mutex free.\<close>

definition connected_ble :: ble where
  "connected_ble = \<lparr>bleInitialized = True, deviceConnected = True,
     oldDeviceConnected = True, pServer = True, pLiveDataCharacteristic = True,
     pBatteryCharacteristic = True, newDataAvailable = True,
     sharedSensorData = sample_reading, lastConnectionCheck = 0,
     lastAdvertisingStart = 0, liveDataValue = [], batteryValue = 0,
     notifications = []\<rparr>"

definition mutex_busy :: ble_input where
  "mutex_busy = \<lparr>millis_check = 1000, millis_restart = 1100, mutexTaken = False,
     bleThrows = False\<rparr>"

definition mutex_free :: ble_input where
  "mutex_free = \<lparr>millis_check = 1000, millis_restart = 1100, mutexTaken = True,
     bleThrows = False\<rparr>"

text \<open>Key-value logs of \<open>n\<close> records taken ten seconds apart, and an idle session.\<close>

definition numbered_record :: "nat \<Rightarrow> LogData" where
  "numbered_record i = \<lparr>timestamp = 1700000000 + 10 * word_of_nat i, pm1_0_env = 5,
     pm2_5_env = 12, pm10_0_env = 18, battery_level = 87\<rparr>"

definition wide_record :: "nat \<Rightarrow> LogData" where
  "wide_record i = \<lparr>timestamp = 1700000000 + 10 * word_of_nat i, pm1_0_env = 10,
     pm2_5_env = 20, pm10_0_env = 300, battery_level = 100\<rparr>"

definition kv_device_of :: "(nat \<Rightarrow> LogData) \<Rightarrow> nat \<Rightarrow> device" where
  "kv_device_of r n = \<lparr>logIndex = int n, useLittleFS = False,
     preferences =
       map_of (map (\<lambda>i. (log_key (int i), PBytes (LogData_bytes 0 (r i)))) [0..<n]),
     files = Map.empty, dirs = {}, lastError = 0\<rparr>"

definition idle_session :: session where
  "idle_session = \<lparr>loggedDataCache = [], totalChunks = 0, currentChunk = 0,
     totalEntriesToSend = 0, entriesProcessed = 0, startEntryIndex = 0\<rparr>"

text \<open>A log of one record of which only the first five bytes reached the flash: once as
  a LittleFS file, once as a Preferences blob.\<close>

definition truncated_file_device :: device where
  "truncated_file_device = \<lparr>logIndex = 1, useLittleFS = True, preferences = Map.empty,
     files = [''/logs/0/0.log'' \<mapsto> take 5 (LogData_bytes 0 sample_record)],
     dirs = {''/logs'', ''/logs/0''}, lastError = 0\<rparr>"

definition truncated_blob_device :: device where
  "truncated_blob_device = \<lparr>logIndex = 1, useLittleFS = False,
     preferences = [''log0'' \<mapsto> PBytes (take 5 (LogData_bytes 0 sample_record))],
     files = Map.empty, dirs = {}, lastError = 0\<rparr>"

text \<open>
  Flash contents left by earlier firmware, with a LittleFS that holds nothing yet. In the
  first the count is 3, with two records stored as \<^verbatim>\<open>LogData\<close> under
  \<^verbatim>\<open>log_0\<close> and \<^verbatim>\<open>log_1\<close> and one stored as \<^verbatim>\<open>SensorData\<close> under
  \<^verbatim>\<open>data_2\<close>, the two formats \<^verbatim>\<open>migrateLegacyData\<close> reads. In the second the
  count is 2 and both records are stored as \<^verbatim>\<open>SensorData\<close> under \<^verbatim>\<open>log_0\<close> and
  \<^verbatim>\<open>log_1\<close>, the legacy format \<^verbatim>\<open>loadNextBatch\<close> reads.
\<close>

definition legacy_device :: device where
  "legacy_device = \<lparr>logIndex = 0, useLittleFS = False,
     preferences = [''logIndex'' \<mapsto> PInt 3,
                    ''log_0'' \<mapsto> PBytes (LogData_bytes 0 (numbered_record 0)),
                    ''log_1'' \<mapsto> PBytes (LogData_bytes 0 (numbered_record 1)),
                    ''data_2'' \<mapsto> PBytes (SensorData_bytes sample_reading)],
     files = Map.empty, dirs = {}, lastError = 0\<rparr>"

definition sensor_format_device :: device where
  "sensor_format_device = \<lparr>logIndex = 0, useLittleFS = False,
     preferences = [''logIndex'' \<mapsto> PInt 2,
                    ''log_0'' \<mapsto> PBytes (SensorData_bytes sample_reading),
                    ''log_1'' \<mapsto> PBytes (SensorData_bytes sample_reading)],
     files = Map.empty, dirs = {}, lastError = 0\<rparr>"

section \<open>Clock gate: transitions\<close>

lemma clock_step_accurate_mono:
  "op \<noteq> Boot \<Longrightarrow> rtcTimeAccurate c \<Longrightarrow> rtcTimeAccurate (clock_step op c)"
  by (cases op) (simp_all add: setRTCTime_def setRTCTimeFromBLE_def onWrite_RTC_TIME_def)

lemma clock_step_set_mono:
  "op \<noteq> Boot \<Longrightarrow> rtcTimeSet c \<Longrightarrow> rtcTimeSet (clock_step op c)"
  by (cases op) (simp_all add: setRTCTime_def setRTCTimeFromBLE_def onWrite_RTC_TIME_def)

lemma clock_step_becomes_accurate:
  "\<not> rtcTimeAccurate c \<Longrightarrow> rtcTimeAccurate (clock_step op c) \<Longrightarrow>
     \<exists>t. op = BLEWrite t \<and> clock_step op c = setRTCTimeFromBLE t c"
  by (cases op)
    (simp_all add: initRTC_def setRTCTime_def onWrite_RTC_TIME_def split: if_splits)

text \<open>
  Claim C4. In the clock gate, the accurate state is entered only by a write through the
  BLE sync path, which runs \<^verbatim>\<open>setRTCTimeFromBLE\<close>; a local write
  (\<^verbatim>\<open>setRTCTime\<close>) leaves \<^verbatim>\<open>rtcTimeAccurate\<close> as it was; no step other than
  boot clears a flag that was set; and boot (\<^verbatim>\<open>initRTC\<close>) clears both flags.
\<close>

theorem clock_gate_transitions:
  "(\<not> rtcTimeAccurate c \<and> rtcTimeAccurate (clock_step op c) \<longrightarrow>
      (\<exists>t. op = BLEWrite t \<and> clock_step op c = setRTCTimeFromBLE t c))
   \<and> rtcTimeAccurate (setRTCTime t c) = rtcTimeAccurate c
   \<and> rtcTimeAccurate (setRTCTimeFromBLE t c)
   \<and> (op \<noteq> Boot \<longrightarrow>
        (rtcTimeSet c \<longrightarrow> rtcTimeSet (clock_step op c)) \<and>
        (rtcTimeAccurate c \<longrightarrow> rtcTimeAccurate (clock_step op c)))
   \<and> \<not> rtcTimeSet (initRTC c) \<and> \<not> rtcTimeAccurate (initRTC c)"
  using clock_step_becomes_accurate [of c op]
    clock_step_accurate_mono [of op c] clock_step_set_mono [of op c]
  by (auto simp: setRTCTime_def setRTCTimeFromBLE_def initRTC_def)

theorem clock_gate_transitions_witness:
  "gate (clock_step (LocalWrite 1700000000)
           \<lparr>rtcTimeSet = False, rtcTimeAccurate = False, tv_sec = 0\<rparr>) = SetInaccurate
   \<and> gate (clock_step (BLEWrite 1700000000)
           \<lparr>rtcTimeSet = False, rtcTimeAccurate = False, tv_sec = 0\<rparr>) = SetAccurate
   \<and> clock_step (BLEWrite 1700000000)
           \<lparr>rtcTimeSet = False, rtcTimeAccurate = False, tv_sec = 0\<rparr>
       = setRTCTimeFromBLE 1700000000
           \<lparr>rtcTimeSet = False, rtcTimeAccurate = False, tv_sec = 0\<rparr>
   \<and> rtcTimeAccurate (clock_step (Elapse 10)
           \<lparr>rtcTimeSet = True, rtcTimeAccurate = True, tv_sec = 1700000000\<rparr>)
   \<and> gate (initRTC \<lparr>rtcTimeSet = True, rtcTimeAccurate = True, tv_sec = 1700000000\<rparr>)
       = Unset"
  using clock_gate_transitions
      [of "\<lparr>rtcTimeSet = False, rtcTimeAccurate = False, tv_sec = 0\<rparr>"
          "BLEWrite 1700000000" 1700000000]
    clock_gate_transitions
      [of "\<lparr>rtcTimeSet = True, rtcTimeAccurate = True, tv_sec = 1700000000\<rparr>"
          "Elapse 10" 0]
  by (simp add: gate_def setRTCTime_def setRTCTimeFromBLE_def onWrite_RTC_TIME_def
      initRTC_def)

section \<open>The logging gate\<close>

lemma gate_not_accurate: "gate c \<noteq> SetAccurate \<longleftrightarrow> \<not> rtcTimeAccurate c"
  by (simp add: gate_def)

text \<open>
  Claim C1. Whenever the clock gate is not in its accurate state, that is whenever
  \<^verbatim>\<open>rtcTimeAccurate\<close> is false, \<^verbatim>\<open>logDataToFlash\<close> returns at once for every
  reading and every flash behaviour: nothing is written to either backend and
  \<^verbatim>\<open>logIndex\<close> and all stored records are as before. Three appends in a row, under
  clocks that are not accurate, leave the whole state unchanged.
\<close>

theorem append_is_noop_unless_accurate:
  assumes "gate clk1 \<noteq> SetAccurate" and "gate clk2 \<noteq> SetAccurate"
    and "gate clk3 \<noteq> SetAccurate"
  shows "logDataToFlash pf clk1 millis1 data1 d = (SkippedNotAccurate, d)
    \<and> snd (logDataToFlash pf clk3 millis3 data3
          (snd (logDataToFlash pf clk2 millis2 data2
             (snd (logDataToFlash pf clk1 millis1 data1 d))))) = d"
  using assms by (simp add: gate_not_accurate logDataToFlash_def)

theorem append_is_noop_unless_accurate_witness:
  "gate unsynced = SetInaccurate
   \<and> logDataToFlash healthy unsynced 5000 sample_reading blank_device
       = (SkippedNotAccurate, blank_device)
   \<and> snd (logDataToFlash healthy unsynced 25000 sample_reading
        (snd (logDataToFlash healthy unsynced 15000 sample_reading
           (snd (logDataToFlash healthy unsynced 5000 sample_reading blank_device)))))
       = blank_device"
proof -
  have g: "gate unsynced \<noteq> SetAccurate" by (simp add: gate_def unsynced_def)
  have "gate unsynced = SetInaccurate" by (simp add: gate_def unsynced_def)
  with append_is_noop_unless_accurate [OF g g g, where pf = healthy and d = blank_device
      and ?data1.0 = sample_reading and ?data2.0 = sample_reading
      and ?data3.0 = sample_reading and ?millis1.0 = 5000 and ?millis2.0 = 15000
      and ?millis3.0 = 25000]
  show ?thesis by blast
qed

section \<open>An accurate clock has been set\<close>

lemma clock_step_invariant:
  "rtcTimeAccurate c \<longrightarrow> rtcTimeSet c \<Longrightarrow>
   rtcTimeAccurate (clock_step op c) \<longrightarrow> rtcTimeSet (clock_step op c)"
  by (cases op)
    (simp_all add: initRTC_def setRTCTime_def setRTCTimeFromBLE_def onWrite_RTC_TIME_def)

lemma clock_run_invariant:
  "rtcTimeAccurate c \<longrightarrow> rtcTimeSet c \<Longrightarrow>
   rtcTimeAccurate (clock_run ops c) \<longrightarrow> rtcTimeSet (clock_run ops c)"
proof (induction ops arbitrary: c)
  case Nil
  then show ?case by simp
next
  case (Cons op ops)
  from Cons.prems have "rtcTimeAccurate (clock_step op c) \<longrightarrow> rtcTimeSet (clock_step op c)"
    by (rule clock_step_invariant)
  then show ?case using Cons.IH by simp
qed

lemma reachable_accurate_set:
  "rtcTimeAccurate (clock_run ops (initRTC c0)) \<Longrightarrow> rtcTimeSet (clock_run ops (initRTC c0))"
  using clock_run_invariant [of "initRTC c0" ops] by (simp add: initRTC_def)

text \<open>
  Claim C10. In every state of the clock reached from a boot by any sequence of clock
  writes and elapsed time, \<^verbatim>\<open>rtcTimeAccurate\<close> implies \<^verbatim>\<open>rtcTimeSet\<close>. So when
  the append gate is open \<^verbatim>\<open>getRTCTime\<close> returns the system clock and not the
  pseudo-time derived from the uptime, and the record \<^verbatim>\<open>logDataToFlash\<close> hands to
  either backend carries the system clock as its timestamp, whatever the uptime.
\<close>

theorem accurate_clock_is_set_and_logged:
  assumes "c = clock_run ops (initRTC c0)"
  shows "(rtcTimeAccurate c \<longrightarrow> rtcTimeSet c \<and> getRTCTime c millis = tv_sec c)
    \<and> logDataToFlash pf c millis data d =
        (if \<not> rtcTimeAccurate c then (SkippedNotAccurate, d)
         else if tv_sec c < 1609459200 then (SkippedInvalidTime, d)
         else if useLittleFS d
         then (case saveLogToLittleFS pf (make_logEntry (tv_sec c) data) d of
                 (saved, d') \<Rightarrow> (if saved then SavedLittleFS else FailedLittleFS, d'))
         else logToPreferences pf (make_logEntry (tv_sec c) data) d)"
proof -
  have s: "rtcTimeAccurate c \<Longrightarrow> rtcTimeSet c"
    using reachable_accurate_set assms by simp
  then have g: "rtcTimeAccurate c \<Longrightarrow> getRTCTime c millis = tv_sec c"
    by (simp add: getRTCTime_def)
  show ?thesis
    using s g by (auto simp: logDataToFlash_def Let_def)
qed

theorem accurate_clock_is_set_and_logged_witness:
  "rtcTimeAccurate (clock_run [BLEWrite 1700000000, Elapse 600] (initRTC unsynced))
   \<and> rtcTimeSet (clock_run [BLEWrite 1700000000, Elapse 600] (initRTC unsynced))
   \<and> getRTCTime (clock_run [BLEWrite 1700000000, Elapse 600] (initRTC unsynced)) 90000
       = 1700000600
   \<and> logDataToFlash healthy (clock_run [BLEWrite 1700000000, Elapse 600] (initRTC unsynced))
         90000 sample_reading blank_device
       = logToPreferences healthy (make_logEntry 1700000600 sample_reading) blank_device"
proof -
  let ?c = "clock_run [BLEWrite 1700000000, Elapse 600] (initRTC unsynced)"
  have acc: "rtcTimeAccurate ?c"
    by (simp add: onWrite_RTC_TIME_def setRTCTimeFromBLE_def setRTCTime_def initRTC_def)
  have tv: "tv_sec ?c = 1700000600"
    by (simp add: onWrite_RTC_TIME_def setRTCTimeFromBLE_def setRTCTime_def initRTC_def)
  have fs: "\<not> useLittleFS blank_device" by (simp add: blank_device_def)
  from accurate_clock_is_set_and_logged [OF refl, of "[BLEWrite 1700000000, Elapse 600]"
      unsynced 90000 healthy sample_reading blank_device] acc tv fs
  show ?thesis by simp
qed

section \<open>The radio task and the dirty flag\<close>

lemma checkBLEConnection_flags:
  "deviceConnected (checkBLEConnection inp b) = deviceConnected b
   \<and> newDataAvailable (checkBLEConnection inp b) = newDataAvailable b
   \<and> bleInitialized (checkBLEConnection inp b) = bleInitialized b
   \<and> pServer (checkBLEConnection inp b) = pServer b
   \<and> notifications (checkBLEConnection inp b) = notifications b
   \<and> sharedSensorData (checkBLEConnection inp b) = sharedSensorData b"
  by (simp add: checkBLEConnection_def restartAdvertising_def Let_def)

lemma safeBLEUpdate_cases:
  "safeBLEUpdate inp b = (r, b') \<Longrightarrow>
     (r = Pushed \<longrightarrow> notifications b' = notifications b @ [live_text (sharedSensorData b)]
        \<and> mutexTaken inp \<and> deviceConnected b)
   \<and> (r \<noteq> Pushed \<longrightarrow> notifications b' = notifications b)
   \<and> r \<noteq> NotAttempted"
  by (auto simp: safeBLEUpdate_def Let_def split: if_splits)

text \<open>
  Claim C9, as the code has it. In one pass of the loop of \<^verbatim>\<open>BLETask\<close> a live-data
  push is attempted only when the task is initialised, the peer is connected and
  \<^verbatim>\<open>newDataAvailable\<close> is set; a notification goes out only on a push that succeeded,
  and it carries the shared reading; the flag is cleared after every attempt, whether the
  push succeeded or was skipped, and is left alone when no attempt is made.
\<close>

theorem live_push_and_dirty_flag:
  assumes "BLETask_iteration inp b = (outcome, b')"
  shows "(outcome \<noteq> NotAttempted \<longrightarrow>
            bleInitialized b \<and> deviceConnected b \<and> newDataAvailable b)
    \<and> (outcome = Pushed \<longrightarrow>
            notifications b' = notifications b @ [live_text (sharedSensorData b)]
            \<and> \<not> newDataAvailable b')
    \<and> (outcome \<noteq> Pushed \<longrightarrow> notifications b' = notifications b)
    \<and> (outcome \<noteq> NotAttempted \<longrightarrow> \<not> newDataAvailable b')
    \<and> (outcome = NotAttempted \<longrightarrow> newDataAvailable b' = newDataAvailable b)"
proof (cases "bleInitialized b")
  case False
  with assms show ?thesis by (simp add: BLETask_iteration_def)
next
  case True
  let ?b1 = "checkBLEConnection inp b"
  note f = checkBLEConnection_flags [of inp b]
  show ?thesis
  proof (cases "deviceConnected b \<and> pServer b \<and> newDataAvailable b")
    case False
    with True assms f show ?thesis
      by (auto simp: BLETask_iteration_def Let_def split: if_splits)
  next
    case att: True
    obtain r b2 where u: "safeBLEUpdate inp ?b1 = (r, b2)" by (cases "safeBLEUpdate inp ?b1")
    note c = safeBLEUpdate_cases [OF u]
    from True att assms f u have o: "outcome = r"
      by (auto simp: BLETask_iteration_def Let_def split: if_splits)
    from True att assms f u have n: "notifications b' = notifications b2"
      and d: "\<not> newDataAvailable b'"
      by (auto simp: BLETask_iteration_def Let_def split: if_splits)
    from o n d c f att True show ?thesis by auto
  qed
qed

theorem live_push_and_dirty_flag_witness:
  "BLETask_iteration mutex_free connected_ble
     = (Pushed, connected_ble\<lparr>liveDataValue := live_text sample_reading,
          notifications := [live_text sample_reading], batteryValue := 87,
          newDataAvailable := False\<rparr>)
   \<and> notifications (snd (BLETask_iteration mutex_free connected_ble))
       = notifications connected_ble @ [live_text (sharedSensorData connected_ble)]
   \<and> \<not> newDataAvailable (snd (BLETask_iteration mutex_free connected_ble))"
proof -
  have e: "BLETask_iteration mutex_free connected_ble
     = (Pushed, connected_ble\<lparr>liveDataValue := live_text sample_reading,
          notifications := [live_text sample_reading], batteryValue := 87,
          newDataAvailable := False\<rparr>)"
    by (simp add: BLETask_iteration_def checkBLEConnection_def safeBLEUpdate_def
        connected_ble_def mutex_free_def CONNECTION_CHECK_INTERVAL_def sample_reading_def Let_def)
  from live_push_and_dirty_flag [OF e] e show ?thesis by simp
qed

theorem skipped_push_clears_flag:
  "fst (BLETask_iteration mutex_busy connected_ble) = SkippedNoMutex
   \<and> notifications (snd (BLETask_iteration mutex_busy connected_ble)) = []
   \<and> newDataAvailable connected_ble
   \<and> \<not> newDataAvailable (snd (BLETask_iteration mutex_busy connected_ble))"
  by (simp add: BLETask_iteration_def checkBLEConnection_def safeBLEUpdate_def
      connected_ble_def mutex_busy_def CONNECTION_CHECK_INTERVAL_def Let_def)

section \<open>Decimal strings and keys\<close>

lemma dec_nat_nonempty: "dec_nat n \<noteq> []"
  by (subst dec_nat.simps) simp

lemma digit_char_inj: "a < 10 \<Longrightarrow> b < 10 \<Longrightarrow> digit_char a = digit_char b \<Longrightarrow> a = b"
proof -
  assume a: "a < 10" and b: "b < 10" and e: "digit_char a = digit_char b"
  have "distinct ''0123456789''" by simp
  with a b e show ?thesis
    unfolding digit_char_def by (simp add: nth_eq_iff_index_eq)
qed

lemma digit_char_digit: "d < 10 \<Longrightarrow> digit_char d \<in> set ''0123456789''"
  unfolding digit_char_def by (rule nth_mem) simp

lemma dec_nat_digits: "set (dec_nat n) \<subseteq> set ''0123456789''"
proof (induction n rule: dec_nat.induct)
  case (1 n)
  show ?case
  proof (cases "n < 10")
    case True
    then show ?thesis
      using digit_char_digit [of n] by (subst dec_nat.simps) simp
  next
    case False
    have "digit_char (n mod 10) \<in> set ''0123456789''"
      by (rule digit_char_digit) simp
    with False "1.IH" show ?thesis
      by (subst dec_nat.simps) simp
  qed
qed

lemma dec_nat_inj: "dec_nat a = dec_nat b \<Longrightarrow> a = b"
proof (induction a arbitrary: b rule: dec_nat.induct)
  case (1 n)
  show ?case
  proof (cases "n < 10")
    case True
    with "1.prems" have "dec_nat b = [digit_char n]" by (simp add: dec_nat.simps)
    then have "b < 10 \<and> digit_char b = digit_char n"
      using dec_nat_nonempty [of "b div 10"]
      by (subst (asm) dec_nat.simps) (auto split: if_splits)
    with True show ?thesis using digit_char_inj by metis
  next
    case False
    with "1.prems" have e: "dec_nat b = dec_nat (n div 10) @ [digit_char (n mod 10)]"
      by (subst (asm) dec_nat.simps) simp
    have "\<not> b < 10"
    proof
      assume "b < 10"
      then have "dec_nat b = [digit_char b]" by (simp add: dec_nat.simps)
      with e show False using dec_nat_nonempty [of "n div 10"] by auto
    qed
    then have "dec_nat b = dec_nat (b div 10) @ [digit_char (b mod 10)]"
      by (subst dec_nat.simps) simp
    with e have "dec_nat (n div 10) = dec_nat (b div 10)"
      and "digit_char (n mod 10) = digit_char (b mod 10)"
      by auto
    with "1.IH" [OF False] have "n div 10 = b div 10" and "n mod 10 = b mod 10"
      using digit_char_inj [of "n mod 10" "b mod 10"] by auto
    then show ?thesis by (metis div_mult_mod_eq)
  qed
qed

lemma dec_nat_lacks: "c \<notin> set ''0123456789'' \<Longrightarrow> c \<notin> set (dec_nat n)"
  using dec_nat_digits [of n] by blast

lemma String_int_lacks:
  assumes "c \<notin> set ''0123456789''" and "c \<noteq> CHR ''-''"
  shows "c \<notin> set (String_int i)"
proof (cases "i < 0")
  case True
  then have "String_int i = CHR ''-'' # dec_nat (nat (- i))" by (simp add: String_int_def)
  with assms dec_nat_lacks [OF assms(1), of "nat (- i)"] show ?thesis by simp
next
  case False
  then have "String_int i = dec_nat (nat i)" by (simp add: String_int_def)
  with dec_nat_lacks [OF assms(1), of "nat i"] show ?thesis by simp
qed

lemma String_int_inj: "String_int a = String_int b \<Longrightarrow> a = b"
proof -
  assume e: "String_int a = String_int b"
  have nd: "\<And>n. hd (dec_nat n) \<noteq> CHR ''-''"
  proof -
    fix n
    have "hd (dec_nat n) \<in> set (dec_nat n)" using dec_nat_nonempty by simp
    moreover have "CHR ''-'' \<notin> set (dec_nat n)" by (rule dec_nat_lacks) simp
    ultimately show "hd (dec_nat n) \<noteq> CHR ''-''" by metis
  qed
  show ?thesis
  proof (cases "a < 0")
    case True
    show ?thesis
    proof (cases "b < 0")
      case bn: True
      with True e have "dec_nat (nat (- a)) = dec_nat (nat (- b))" by (simp add: String_int_def)
      then have "nat (- a) = nat (- b)" by (rule dec_nat_inj)
      with True bn show ?thesis by simp
    next
      case False
      with True e have "CHR ''-'' # dec_nat (nat (- a)) = dec_nat (nat b)"
        by (simp add: String_int_def)
      then have "hd (dec_nat (nat b)) = CHR ''-''" by (metis list.sel(1))
      with nd show ?thesis by simp
    qed
  next
    case False
    show ?thesis
    proof (cases "b < 0")
      case True
      with False e have "dec_nat (nat a) = CHR ''-'' # dec_nat (nat (- b))"
        by (simp add: String_int_def)
      then have "hd (dec_nat (nat a)) = CHR ''-''" by (metis list.sel(1))
      with nd show ?thesis by simp
    next
      case bp: False
      with False e have "dec_nat (nat a) = dec_nat (nat b)" by (simp add: String_int_def)
      then have "nat a = nat b" by (rule dec_nat_inj)
      with False bp show ?thesis by simp
    qed
  qed
qed

lemma String_int_no_letter: "String_int i \<noteq> CHR ''I'' # t"
proof -
  have "CHR ''I'' \<notin> set (String_int i)" by (rule String_int_lacks) simp_all
  then show ?thesis by (metis list.set_intros(1))
qed

lemma log_key_not_logIndex: "log_key i \<noteq> ''logIndex''"
  using String_int_no_letter [of "c_mod i MAX_LOG_ENTRIES" "''ndex''"]
  by (simp add: log_key_def)

section \<open>Appending to the key-value backend\<close>

lemma fold_prefs_remove:
  "logIndex (fold (\<lambda>i. prefs_remove (f i)) xs d) = logIndex d
   \<and> useLittleFS (fold (\<lambda>i. prefs_remove (f i)) xs d) = useLittleFS d
   \<and> files (fold (\<lambda>i. prefs_remove (f i)) xs d) = files d
   \<and> dirs (fold (\<lambda>i. prefs_remove (f i)) xs d) = dirs d
   \<and> lastError (fold (\<lambda>i. prefs_remove (f i)) xs d) = lastError d
   \<and> preferences (fold (\<lambda>i. prefs_remove (f i)) xs d)
       = (\<lambda>k. if k \<in> f ` set xs then None else preferences d k)"
proof (induction xs arbitrary: d)
  case Nil
  show ?case by simp
next
  case (Cons x xs)
  show ?case
    using Cons.IH [of "prefs_remove (f x) d"]
    by (auto simp: prefs_remove_def fun_eq_iff)
qed

lemma targeted_cleanup_frame:
  "logIndex (targeted_cleanup pf d) = logIndex d
   \<and> useLittleFS (targeted_cleanup pf d) = useLittleFS d
   \<and> files (targeted_cleanup pf d) = files d
   \<and> dirs (targeted_cleanup pf d) = dirs d
   \<and> lastError (targeted_cleanup pf d) = lastError d
   \<and> (preferences (targeted_cleanup pf d) k = preferences d k
        \<or> preferences (targeted_cleanup pf d) k = None)"
  by (simp add: targeted_cleanup_def prefs_remove_def)

lemma emergency_cleanup_frame:
  "logIndex (emergency_cleanup d) = logIndex d
   \<and> useLittleFS (emergency_cleanup d) = useLittleFS d
   \<and> files (emergency_cleanup d) = files d
   \<and> dirs (emergency_cleanup d) = dirs d
   \<and> lastError (emergency_cleanup d) = lastError d
   \<and> (preferences (emergency_cleanup d) k = preferences d k
        \<or> preferences (emergency_cleanup d) k = None)"
  unfolding emergency_cleanup_def
  using fold_prefs_remove [of "\<lambda>i. log_key (logIndex d - MAX_LOG_ENTRIES + int i)" "[0..<10]" d]
    fold_prefs_remove [of "\<lambda>i. legacy_key (int i)" "[0..<10]" d]
  by (cases "logIndex d \<ge> MAX_LOG_ENTRIES") (simp_all del: upt_rec_numeral)

lemma advance_logIndex_frame:
  "logIndex (advance_logIndex pf d) = logIndex d + 1
   \<and> files (advance_logIndex pf d) = files d
   \<and> (k \<noteq> ''logIndex'' \<longrightarrow> preferences (advance_logIndex pf d) k = preferences d k)"
  by (simp add: advance_logIndex_def prefs_put_def Let_def)

text \<open>
  Claim C3, as the code has it. An append on the key-value backend whose write fails
  (\<^verbatim>\<open>putBytes\<close> returns 0) runs the emergency cleanup once and retries the write
  once. If the retry succeeds the record is stored under the slot's key and
  \<^verbatim>\<open>logIndex\<close> advances by one; if it fails the call reports the failure with
  \<^verbatim>\<open>logIndex\<close> and the file store unchanged and with no key added or altered, but
  without the keys the two cleanups removed. When the first write succeeds there is no
  retry. So \<^verbatim>\<open>logIndex\<close> advances exactly on a call whose write succeeded.
\<close>

theorem kv_append_retries_once:
  assumes key: "key = log_key (logIndex d)"
    and v: "v = PBytes (LogData_bytes (uninit_byte pf d) logEntry)"
    and d1: "d1 = targeted_cleanup pf d"
    and d2: "d2 = emergency_cleanup (d1\<lparr>lastError := ERROR_FLASH_WRITE_FAILED\<rparr>)"
  shows "(nvs_put_ok pf d1 key v \<longrightarrow>
            logToPreferences pf logEntry d
              = (SavedFirstTry,
                 advance_logIndex pf (d1\<lparr>preferences := (preferences d1)(key \<mapsto> v)\<rparr>)))
    \<and> (\<not> nvs_put_ok pf d1 key v \<and> nvs_put_ok pf d2 key v \<longrightarrow>
            logToPreferences pf logEntry d
              = (SavedAfterCleanup,
                 advance_logIndex pf (d2\<lparr>preferences := (preferences d2)(key \<mapsto> v)\<rparr>))
            \<and> logIndex (snd (logToPreferences pf logEntry d)) = logIndex d + 1
            \<and> preferences (snd (logToPreferences pf logEntry d)) key = Some v)
    \<and> (\<not> nvs_put_ok pf d1 key v \<and> \<not> nvs_put_ok pf d2 key v \<longrightarrow>
            logToPreferences pf logEntry d = (WriteFailed, d2)
            \<and> logIndex d2 = logIndex d \<and> files d2 = files d
            \<and> (\<forall>k. preferences d2 k = preferences d k \<or> preferences d2 k = None))
    \<and> (logIndex (snd (logToPreferences pf logEntry d)) \<noteq> logIndex d \<longrightarrow>
            fst (logToPreferences pf logEntry d) = SavedFirstTry
            \<or> fst (logToPreferences pf logEntry d) = SavedAfterCleanup)"
proof -
  let ?e = "d1\<lparr>lastError := ERROR_FLASH_WRITE_FAILED\<rparr>"
  have l2: "logIndex d2 = logIndex d" and f2: "files d2 = files d"
    using emergency_cleanup_frame [of ?e] targeted_cleanup_frame [of pf d] d1 d2 by simp_all
  have p2: "preferences d2 k = preferences d k \<or> preferences d2 k = None" for k
    using emergency_cleanup_frame [of ?e k] targeted_cleanup_frame [of pf d k] d1 d2 by auto
  have first: "nvs_put_ok pf d1 key v \<Longrightarrow>
      logToPreferences pf logEntry d
        = (SavedFirstTry, advance_logIndex pf (d1\<lparr>preferences := (preferences d1)(key \<mapsto> v)\<rparr>))"
    using key v d1 by (simp add: logToPreferences_def prefs_put_def Let_def)
  have second: "\<not> nvs_put_ok pf d1 key v \<Longrightarrow> nvs_put_ok pf d2 key v \<Longrightarrow>
      logToPreferences pf logEntry d
        = (SavedAfterCleanup, advance_logIndex pf (d2\<lparr>preferences := (preferences d2)(key \<mapsto> v)\<rparr>))"
    using key v d1 d2 by (simp add: logToPreferences_def prefs_put_def Let_def)
  have failed: "\<not> nvs_put_ok pf d1 key v \<Longrightarrow> \<not> nvs_put_ok pf d2 key v \<Longrightarrow>
      logToPreferences pf logEntry d = (WriteFailed, d2)"
    using key v d1 d2 by (simp add: logToPreferences_def prefs_put_def Let_def)
  have stored: "preferences (advance_logIndex pf (d2\<lparr>preferences := (preferences d2)(key \<mapsto> v)\<rparr>)) key
      = Some v"
    using advance_logIndex_frame [of pf "d2\<lparr>preferences := (preferences d2)(key \<mapsto> v)\<rparr>" key]
      log_key_not_logIndex [of "logIndex d"] key by simp
  have adv: "logIndex (advance_logIndex pf (d2\<lparr>preferences := (preferences d2)(key \<mapsto> v)\<rparr>))
      = logIndex d + 1"
    using advance_logIndex_frame [of pf "d2\<lparr>preferences := (preferences d2)(key \<mapsto> v)\<rparr>"] l2
    by simp
  have c1: "nvs_put_ok pf d1 key v \<longrightarrow>
      logToPreferences pf logEntry d
        = (SavedFirstTry, advance_logIndex pf (d1\<lparr>preferences := (preferences d1)(key \<mapsto> v)\<rparr>))"
    using first by blast
  have c2: "\<not> nvs_put_ok pf d1 key v \<and> nvs_put_ok pf d2 key v \<longrightarrow>
      logToPreferences pf logEntry d
        = (SavedAfterCleanup, advance_logIndex pf (d2\<lparr>preferences := (preferences d2)(key \<mapsto> v)\<rparr>))
      \<and> logIndex (snd (logToPreferences pf logEntry d)) = logIndex d + 1
      \<and> preferences (snd (logToPreferences pf logEntry d)) key = Some v"
  proof (intro impI, elim conjE)
    assume a: "\<not> nvs_put_ok pf d1 key v" "nvs_put_ok pf d2 key v"
    note s = second [OF a]
    show "logToPreferences pf logEntry d
        = (SavedAfterCleanup, advance_logIndex pf (d2\<lparr>preferences := (preferences d2)(key \<mapsto> v)\<rparr>))
      \<and> logIndex (snd (logToPreferences pf logEntry d)) = logIndex d + 1
      \<and> preferences (snd (logToPreferences pf logEntry d)) key = Some v"
      by (simp only: s snd_conv stored adv)
  qed
  have c3: "\<not> nvs_put_ok pf d1 key v \<and> \<not> nvs_put_ok pf d2 key v \<longrightarrow>
      logToPreferences pf logEntry d = (WriteFailed, d2)
      \<and> logIndex d2 = logIndex d \<and> files d2 = files d
      \<and> (\<forall>k. preferences d2 k = preferences d k \<or> preferences d2 k = None)"
    using failed l2 f2 p2 by blast
  have c4: "logIndex (snd (logToPreferences pf logEntry d)) \<noteq> logIndex d \<longrightarrow>
      fst (logToPreferences pf logEntry d) = SavedFirstTry
      \<or> fst (logToPreferences pf logEntry d) = SavedAfterCleanup"
  proof (cases "nvs_put_ok pf d1 key v")
    case True
    then show ?thesis by (simp only: first [OF True] fst_conv) simp
  next
    case n1: False
    show ?thesis
    proof (cases "nvs_put_ok pf d2 key v")
      case True
      show ?thesis by (simp only: second [OF n1 True] fst_conv) simp
    next
      case False
      show ?thesis by (simp only: failed [OF n1 False] snd_conv l2) simp
    qed
  qed
  from c1 c2 c3 c4 show ?thesis by (intro conjI)
qed

theorem kv_append_retries_once_witness:
  "fst (logToPreferences healthy sample_record wrapped_device) = SavedFirstTry
   \<and> fst (logToPreferences tight_flash sample_record wrapped_device) = SavedAfterCleanup
   \<and> logIndex (snd (logToPreferences tight_flash sample_record wrapped_device)) = 100001
   \<and> preferences (snd (logToPreferences tight_flash sample_record wrapped_device)) ''log0''
       = Some (PBytes (LogData_bytes 0xA5 sample_record))
   \<and> fst (logToPreferences worn_out sample_record wrapped_device) = WriteFailed
   \<and> logIndex (snd (logToPreferences worn_out sample_record wrapped_device)) = 100000"
proof -
  have k: "log_key (logIndex wrapped_device) = ''log0''" by code_simp
  have li: "logIndex wrapped_device = 100000" by (simp add: wrapped_device_def)
  have hp: "nvs_put_ok healthy x key v" for x key v by (simp add: healthy_def)
  have wp: "\<not> nvs_put_ok worn_out x key v" for x key v by (simp add: worn_out_def)
  have t1: "\<not> nvs_put_ok tight_flash (targeted_cleanup tight_flash wrapped_device) key v"
    for key v
  proof -
    have "preferences (targeted_cleanup tight_flash wrapped_device) ''log1'' \<noteq> None"
      by code_simp
    then show ?thesis by (simp add: tight_flash_def)
  qed
  have t2: "nvs_put_ok tight_flash
      (emergency_cleanup ((targeted_cleanup tight_flash wrapped_device)
         \<lparr>lastError := ERROR_FLASH_WRITE_FAILED\<rparr>)) key v" for key v
  proof -
    have "preferences (emergency_cleanup ((targeted_cleanup tight_flash wrapped_device)
         \<lparr>lastError := ERROR_FLASH_WRITE_FAILED\<rparr>)) ''log1'' = None"
      by code_simp
    then show ?thesis by (simp add: tight_flash_def)
  qed
  note h = kv_append_retries_once [OF refl refl refl refl, where pf = healthy
      and d = wrapped_device and logEntry = sample_record]
  note t = kv_append_retries_once [OF refl refl refl refl, where pf = tight_flash
      and d = wrapped_device and logEntry = sample_record]
  note w = kv_append_retries_once [OF refl refl refl refl, where pf = worn_out
      and d = wrapped_device and logEntry = sample_record]
  have a: "fst (logToPreferences healthy sample_record wrapped_device) = SavedFirstTry"
    by (simp only: h [THEN conjunct1, rule_format, OF hp] fst_conv)
  note t' = t [THEN conjunct2, THEN conjunct1, rule_format, OF conjI [OF t1 t2]]
  have b1: "fst (logToPreferences tight_flash sample_record wrapped_device) = SavedAfterCleanup"
    by (simp only: t' [THEN conjunct1] fst_conv)
  have b2: "logIndex (snd (logToPreferences tight_flash sample_record wrapped_device)) = 100001"
    using t' [THEN conjunct2, THEN conjunct1] li by simp
  have b3: "preferences (snd (logToPreferences tight_flash sample_record wrapped_device)) ''log0''
       = Some (PBytes (LogData_bytes 0xA5 sample_record))"
    using t' [THEN conjunct2, THEN conjunct2] k by (simp add: tight_flash_def)
  note b = conjI [OF b1 conjI [OF b2 b3]]
  note w' = w [THEN conjunct2, THEN conjunct2, THEN conjunct1, rule_format, OF conjI [OF wp wp]]
  have c1: "fst (logToPreferences worn_out sample_record wrapped_device) = WriteFailed"
    by (simp only: w' [THEN conjunct1] fst_conv)
  have c2: "logIndex (snd (logToPreferences worn_out sample_record wrapped_device)) = 100000"
    using w' [THEN conjunct2, THEN conjunct1] li by (simp only: w' [THEN conjunct1] snd_conv)
  note c = conjI [OF c1 c2]
  from a b c show ?thesis by blast
qed

text \<open>
  On a flash where every write fails, an append to the wrapped log reports the failure,
  and the record of slot 1, which was retained and readable before, is gone after.
\<close>

theorem failed_append_loses_records:
  "fst (logDataToFlash worn_out synced 5000 sample_reading wrapped_device) = WriteFailed
   \<and> load_entry worn_out wrapped_device 1 = Some sample_record
   \<and> load_entry worn_out
        (snd (logDataToFlash worn_out synced 5000 sample_reading wrapped_device)) 1 = None"
  by code_simp

section \<open>The record codec\<close>

lemma le16_roundtrip:
  "(ucast (ucast w :: byte) :: 16 word) OR push_bit 8 (ucast (ucast (drop_bit 8 w) :: byte)) = w"
  by (rule bit_word_eqI) (auto simp: bit_simps)

lemma le32_roundtrip:
  "(ucast (ucast w :: byte) :: 32 word) OR push_bit 8 (ucast (ucast (drop_bit 8 w) :: byte))
      OR push_bit 16 (ucast (ucast (drop_bit 16 w) :: byte))
      OR push_bit 24 (ucast (ucast (drop_bit 24 w) :: byte)) = w"
proof (rule bit_word_eqI)
  fix n assume n: "n < LENGTH(32)"
  consider "n < 8" | "8 \<le> n" "n < 16" | "16 \<le> n" "n < 24" | "24 \<le> n" by linarith
  then show "bit ((ucast (ucast w :: byte) :: 32 word)
        OR push_bit 8 (ucast (ucast (drop_bit 8 w) :: byte))
        OR push_bit 16 (ucast (ucast (drop_bit 16 w) :: byte))
        OR push_bit 24 (ucast (ucast (drop_bit 24 w) :: byte))) n = bit w n"
    using n by cases (auto simp: bit_simps)
qed

lemma length_LogData_bytes: "length (LogData_bytes pad e) = sizeof_LogData"
  by (simp add: LogData_bytes_def bytes32_def bytes16_def sizeof_LogData_def)

lemma LogData_roundtrip: "LogData_of_bytes (LogData_bytes pad e) = e"
proof -
  have t: "word32_at (LogData_bytes pad e) 0 = timestamp e"
    by (simp only: LogData_bytes_def bytes32_def bytes16_def word32_at_def append_Cons
        append_Nil nth_Cons_0 nth_Cons_numeral nth_Cons_Suc One_nat_def add_0 numeral_2_eq_2
        numeral_3_eq_3 le32_roundtrip)
  have a: "word16_at (LogData_bytes pad e) 4 = pm1_0_env e"
    unfolding LogData_bytes_def bytes32_def bytes16_def word16_at_def
    using le16_roundtrip [of "pm1_0_env e"] by simp
  have b: "word16_at (LogData_bytes pad e) 6 = pm2_5_env e"
    unfolding LogData_bytes_def bytes32_def bytes16_def word16_at_def
    using le16_roundtrip [of "pm2_5_env e"] by simp
  have c: "word16_at (LogData_bytes pad e) 8 = pm10_0_env e"
    unfolding LogData_bytes_def bytes32_def bytes16_def word16_at_def
    using le16_roundtrip [of "pm10_0_env e"] by simp
  have d: "LogData_bytes pad e ! 10 = battery_level e"
    by (simp add: LogData_bytes_def bytes32_def bytes16_def)
  show ?thesis
    by (simp add: LogData_of_bytes_def t a b c d)
qed

lemma read_into_zeroed_whole: "length b = n \<Longrightarrow> read_into_zeroed n b = b"
  by (simp add: read_into_zeroed_def)

text \<open>The record stored under a Preferences key is read back as it was written.\<close>

lemma prefs_roundtrip:
  "prefs_getBytes (p(key \<mapsto> PBytes (LogData_bytes pad e))) key sizeof_LogData
     = (sizeof_LogData, LogData_bytes pad e)"
  by (simp add: prefs_getBytes_def length_LogData_bytes)

lemma log_path_not_metadata: "getLittleFSLogPath i \<noteq> metadata_path"
proof
  assume "getLittleFSLogPath i = metadata_path"
  then have "last (getLittleFSLogPath i) = last metadata_path" by simp
  then show False by (simp add: getLittleFSLogPath_def metadata_path_def)
qed

text \<open>A record saved to LittleFS is read back as it was, and so is one stored under its
  Preferences key.\<close>

lemma littlefs_roundtrip:
  assumes s: "saveLogToLittleFS pf e d = (True, d')"
    and r: "fs_open_r_ok pf d' (getLittleFSLogPath (logIndex d))"
  shows "readLogFromLittleFS pf d' (logIndex d) = e"
proof -
  let ?p = "getLittleFSLogPath (logIndex d)"
  obtain made d1 where e1: "ensure_dir pf (dirPath_of ?p) d = (made, d1)"
    by (cases "ensure_dir pf (dirPath_of ?p) d")
  let ?b = "LogData_bytes (uninit_byte pf d) e"
  obtain n d2 where w: "write_log_file pf ?p ?b d1 = (n, d2)"
    by (cases "write_log_file pf ?p ?b d1")
  from s e1 w have n: "n = sizeof_LogData"
    and d': "d' = write_metadata pf (d2\<lparr>logIndex := logIndex d2 + 1\<rparr>)"
    by (simp_all add: saveLogToLittleFS_def Let_def split: if_splits)
  from w n have f2: "files d2 ?p = Some ?b"
    by (auto simp: write_log_file_def Let_def length_LogData_bytes)
  have f: "files d' ?p = Some ?b"
    unfolding d' using f2 log_path_not_metadata [of "logIndex d"]
    by (simp add: write_metadata_def)
  show ?thesis
    using f r
    by (simp add: readLogFromLittleFS_def LittleFS_exists_def Let_def
        read_into_zeroed_whole [OF length_LogData_bytes] LogData_roundtrip)
qed

lemma preferences_roundtrip:
  assumes "preferences d (log_key i) = Some (PBytes (LogData_bytes pad e))"
    and "\<not> useLittleFS d"
  shows "load_entry pf d i = Some e"
  using assms
  by (simp add: load_entry_def prefs_getBytes_def length_LogData_bytes LogData_roundtrip)

section \<open>The chunked transfer\<close>

lemma load_loop_eq:
  "load_loop pf d start i batchEnd cache
     = cache @ concat (map (\<lambda>j. entry_text pf d (start + j)) [i..batchEnd - 1])"
proof (induction pf d start i batchEnd cache rule: load_loop.induct)
  case (1 pf d start i batchEnd cache)
  show ?case
  proof (cases "i < batchEnd")
    case True
    then have u: "[i..batchEnd - 1] = i # [i + 1..batchEnd - 1]"
      by (simp add: upto_rec1)
    from True "1.IH" show ?thesis
      by (subst load_loop.simps) (simp add: u)
  next
    case False
    then show ?thesis by (subst load_loop.simps) simp
  qed
qed

lemma loadNextBatch_fields:
  "totalChunks (loadNextBatch pf d s) = totalChunks s"
  "currentChunk (loadNextBatch pf d s) = currentChunk s"
  "totalEntriesToSend (loadNextBatch pf d s) = totalEntriesToSend s"
  "startEntryIndex (loadNextBatch pf d s) = startEntryIndex s"
  "entriesProcessed (loadNextBatch pf d s)
     = min (entriesProcessed s + ENTRIES_PER_BATCH) (totalEntriesToSend s)"
  "loggedDataCache (loadNextBatch pf d s) \<noteq> []"
  by (simp_all add: loadNextBatch_def Let_def)

lemma prepare_fields:
  "totalChunks (prepareLoggedDataForChunking pf d s)
     = max 1 (c_div (min (logIndex d) MAX_LOG_ENTRIES * 30 + MAX_CHUNK_SIZE - 1) MAX_CHUNK_SIZE)"
  "currentChunk (prepareLoggedDataForChunking pf d s) = 0"
  "totalEntriesToSend (prepareLoggedDataForChunking pf d s) = min (logIndex d) MAX_LOG_ENTRIES"
  "startEntryIndex (prepareLoggedDataForChunking pf d s) = max 0 (logIndex d - MAX_LOG_ENTRIES)"
  "entriesProcessed (prepareLoggedDataForChunking pf d s)
     = min ENTRIES_PER_BATCH (min (logIndex d) MAX_LOG_ENTRIES)"
  "loggedDataCache (prepareLoggedDataForChunking pf d s) \<noteq> []"
  by (simp_all add: prepareLoggedDataForChunking_def loadNextBatch_fields)

lemma prepare_cache:
  "loggedDataCache (prepareLoggedDataForChunking pf d s)
     = (let cache = concat (map (\<lambda>j. entry_text pf d (max 0 (logIndex d - MAX_LOG_ENTRIES) + j))
                       [0..min ENTRIES_PER_BATCH (min (logIndex d) MAX_LOG_ENTRIES) - 1])
        in if cache = [] then ''No data available'' else cache)"
  by (simp add: prepareLoggedDataForChunking_def loadNextBatch_def load_loop_eq Let_def)

text \<open>The session does not depend on the one it replaces.\<close>

lemma prepare_independent:
  "prepareLoggedDataForChunking pf d s = prepareLoggedDataForChunking pf d s'"
  by (simp add: prepareLoggedDataForChunking_def loadNextBatch_def Let_def)

text \<open>Serving from a cache that holds a full chunk, from the last of the cache, and
  from an empty cache.\<close>

lemma send_full_chunk:
  assumes "length (loggedDataCache s) \<ge> 400"
  shows "sendLoggedDataChunk pf d s
     = (take 400 (loggedDataCache s), s\<lparr>loggedDataCache := drop 400 (loggedDataCache s)\<rparr>)"
proof -
  from assms have n: "loggedDataCache s \<noteq> []" by auto
  from assms have m: "nat (min 400 (int (length (loggedDataCache s)))) = 400" by simp
  show ?thesis
    using assms n unfolding sendLoggedDataChunk_def Let_def MAX_CHUNK_SIZE_def m
    by (cases "400 < length (loggedDataCache s)") simp_all
qed

lemma send_rest_of_cache:
  assumes "loggedDataCache s \<noteq> []" and "length (loggedDataCache s) < 400"
    and "entriesProcessed s \<ge> totalEntriesToSend s"
  shows "sendLoggedDataChunk pf d s = (loggedDataCache s, s\<lparr>loggedDataCache := []\<rparr>)"
proof -
  from assms have m: "nat (min 400 (int (length (loggedDataCache s)))) = length (loggedDataCache s)"
    by simp
  show ?thesis
    using assms unfolding sendLoggedDataChunk_def Let_def MAX_CHUNK_SIZE_def m by simp
qed

lemma send_empty_cache:
  assumes "loggedDataCache s = []"
  shows "sendLoggedDataChunk pf d s
     = sendLoggedDataChunk pf d (prepareLoggedDataForChunking pf d s)"
  using assms prepare_fields(6) [of pf d s]
  by (simp add: sendLoggedDataChunk_def)

lemma loadNextBatch_currentChunk:
  "loadNextBatch pf d (s\<lparr>currentChunk := k\<rparr>) = (loadNextBatch pf d s)\<lparr>currentChunk := k\<rparr>"
  by (simp add: loadNextBatch_def Let_def)

lemma send_currentChunk:
  "sendLoggedDataChunk pf d (s\<lparr>currentChunk := k\<rparr>)
     = (fst (sendLoggedDataChunk pf d s),
        if loggedDataCache s = [] then snd (sendLoggedDataChunk pf d s)
        else (snd (sendLoggedDataChunk pf d s))\<lparr>currentChunk := k\<rparr>)"
proof (cases "loggedDataCache s = []")
  case True
  have "sendLoggedDataChunk pf d (s\<lparr>currentChunk := k\<rparr>)
      = sendLoggedDataChunk pf d (prepareLoggedDataForChunking pf d (s\<lparr>currentChunk := k\<rparr>))"
    using True by (intro send_empty_cache) simp
  also have "\<dots> = sendLoggedDataChunk pf d (prepareLoggedDataForChunking pf d s)"
    using prepare_independent [of pf d "s\<lparr>currentChunk := k\<rparr>" s] by simp
  also have "\<dots> = sendLoggedDataChunk pf d s"
    using True by (rule send_empty_cache [symmetric])
  finally show ?thesis using True by simp
next
  case False
  then show ?thesis
    by (simp add: sendLoggedDataChunk_def Let_def loadNextBatch_currentChunk
        loadNextBatch_fields)
qed

lemma onWrite_in_range:
  assumes "0 \<le> j" and "j < totalChunks s"
  shows "onWrite_CHUNK_REQUEST pf d j s
      = (Some (fst (sendLoggedDataChunk pf d s)),
         if loggedDataCache s = [] then snd (sendLoggedDataChunk pf d s)
         else (snd (sendLoggedDataChunk pf d s))\<lparr>currentChunk := j\<rparr>)"
  using assms by (simp add: onWrite_CHUNK_REQUEST_def send_currentChunk)

lemma onWrite_full_chunk:
  assumes "0 \<le> j" and "j < totalChunks s" and l: "length (loggedDataCache s) \<ge> 400"
  shows "onWrite_CHUNK_REQUEST pf d j s
      = (Some (take 400 (loggedDataCache s)),
         s\<lparr>currentChunk := j, loggedDataCache := drop 400 (loggedDataCache s)\<rparr>)"
proof -
  from l have "loggedDataCache s \<noteq> []" by auto
  then show ?thesis
    using onWrite_in_range [OF assms(1,2)] send_full_chunk [OF l, of pf d] by simp
qed

lemma onWrite_rest_of_cache:
  assumes "0 \<le> j" and "j < totalChunks s" and "loggedDataCache s \<noteq> []"
    and "length (loggedDataCache s) < 400" and "entriesProcessed s \<ge> totalEntriesToSend s"
  shows "onWrite_CHUNK_REQUEST pf d j s
      = (Some (loggedDataCache s), s\<lparr>currentChunk := j, loggedDataCache := []\<rparr>)"
  using onWrite_in_range [OF assms(1,2)] send_rest_of_cache [OF assms(3,4,5), of pf d] assms(3)
  by simp

section \<open>Key-value logs with known contents\<close>

lemma length_concat_const:
  "(\<And>x. x \<in> set xs \<Longrightarrow> length (f x) = n) \<Longrightarrow> length (concat (map f xs)) = n * length xs"
  by (induction xs) simp_all

lemma length_dec_nat:
  "10 ^ k \<le> n \<Longrightarrow> n < 10 ^ Suc k \<Longrightarrow> length (dec_nat n) = Suc k"
proof (induction k arbitrary: n)
  case 0
  then show ?case by (subst dec_nat.simps) simp
next
  case (Suc k)
  have "1 \<le> (10::nat) ^ k" by simp
  then have "(10::nat) \<le> 10 ^ Suc k" by simp
  with Suc.prems have ge: "\<not> n < 10" by linarith
  from Suc.prems have "(10 * 10 ^ k) div 10 \<le> n div (10::nat)"
    by (intro div_le_mono) simp
  then have lo: "10 ^ k \<le> n div 10" by simp
  from Suc.prems have "n < 10 ^ Suc k * 10" by (simp add: mult.commute)
  then have hi: "n div 10 < 10 ^ Suc k" by (rule less_mult_imp_div_less)
  from Suc.IH [OF lo hi] ge show ?case by (subst dec_nat.simps) simp
qed

lemma length_dec_nat_small: "n < 10 \<Longrightarrow> length (dec_nat n) = 1"
  by (subst dec_nat.simps) simp

lemma unat_timestamp:
  assumes "i < 100000"
  shows "unat (1700000000 + 10 * word_of_nat i :: 32 word) = 1700000000 + 10 * i"
proof -
  have "(1700000000 + 10 * word_of_nat i :: 32 word) = word_of_nat (1700000000 + 10 * i)"
    by simp
  then have "unat (1700000000 + 10 * word_of_nat i :: 32 word)
      = (1700000000 + 10 * i) mod 2 ^ LENGTH(32)"
    by (simp only: unat_of_nat)
  with assms show ?thesis by simp
qed

lemma length_serialize_numbered:
  assumes "i < 100000"
  shows "length (serialize (numbered_record i)) = 22"
proof -
  have t: "length (dec_nat (1700000000 + 10 * i)) = 10"
    using assms length_dec_nat [of 9 "1700000000 + 10 * i"] by simp
  have a: "length (dec_nat 5) = 1" by (rule length_dec_nat_small) simp
  have b: "length (dec_nat 12) = 2" using length_dec_nat [of 1 12] by simp
  have c: "length (dec_nat 18) = 2" using length_dec_nat [of 1 18] by simp
  have e: "length (dec_nat 87) = 2" using length_dec_nat [of 1 87] by simp
  have u: "unat (timestamp (numbered_record i)) = 1700000000 + 10 * i"
    unfolding numbered_record_def LogData.select_convs using assms by (rule unat_timestamp)
  show ?thesis
    unfolding serialize_def u by (simp add: numbered_record_def t a b c e)
qed

lemma length_serialize_wide:
  assumes "i < 100000"
  shows "length (serialize (wide_record i)) = 25"
proof -
  have t: "length (dec_nat (1700000000 + 10 * i)) = 10"
    using assms length_dec_nat [of 9 "1700000000 + 10 * i"] by simp
  have a: "length (dec_nat 10) = 2" using length_dec_nat [of 1 10] by simp
  have b: "length (dec_nat 20) = 2" using length_dec_nat [of 1 20] by simp
  have c: "length (dec_nat 300) = 3" using length_dec_nat [of 2 300] by simp
  have e: "length (dec_nat 100) = 3" using length_dec_nat [of 2 100] by simp
  have u: "unat (timestamp (wide_record i)) = 1700000000 + 10 * i"
    unfolding wide_record_def LogData.select_convs using assms by (rule unat_timestamp)
  show ?thesis
    unfolding serialize_def u by (simp add: wide_record_def t a b c e)
qed

lemma map_of_keyed:
  "inj_on f (set xs) \<Longrightarrow> i \<in> set xs \<Longrightarrow> map_of (map (\<lambda>i. (f i, g i)) xs) (f i) = Some (g i)"
  by (induction xs) (auto simp: inj_on_def)

lemma c_mod_small: "0 \<le> i \<Longrightarrow> i < m \<Longrightarrow> c_mod i m = i"
  by (simp add: c_mod_def c_div_def)

lemma log_key_small: "0 \<le> i \<Longrightarrow> i < 100000 \<Longrightarrow> log_key i = ''log'' @ String_int i"
  by (simp add: log_key_def MAX_LOG_ENTRIES_def c_mod_small)

lemma log_key_inj_on: "n \<le> 100000 \<Longrightarrow> inj_on (\<lambda>i. log_key (int i)) (set [0..<n])"
proof (rule inj_onI)
  fix x y
  assume n: "n \<le> 100000" and x: "x \<in> set [0..<n]" and y: "y \<in> set [0..<n]"
    and e: "log_key (int x) = log_key (int y)"
  from n x y e have "String_int (int x) = String_int (int y)"
    by (simp add: log_key_small)
  then have "int x = int y" by (rule String_int_inj)
  then show "x = y" by simp
qed

lemma load_entry_kv:
  assumes "i < n" and "n \<le> 100000"
  shows "load_entry pf (kv_device_of r n) (int i) = Some (r i)"
proof -
  have "preferences (kv_device_of r n) (log_key (int i))
      = Some (PBytes (LogData_bytes 0 (r i)))"
    using map_of_keyed [OF log_key_inj_on [OF assms(2)], of i
        "\<lambda>i. PBytes (LogData_bytes 0 (r i))"] assms(1)
    by (simp add: kv_device_of_def)
  then show ?thesis
    by (simp add: load_entry_def kv_device_of_def prefs_getBytes_def length_LogData_bytes
        LogData_roundtrip)
qed

lemma entry_text_kv:
  "i < n \<Longrightarrow> n \<le> 100000 \<Longrightarrow> entry_text pf (kv_device_of r n) (int i) = serialize (r i)"
  by (simp add: entry_text_def load_entry_kv)

lemma upto_as_upt: "[0..int n - 1] = map int [0..<n]"
proof (induction n)
  case 0
  show ?case by simp
next
  case (Suc n)
  have "[0..int (Suc n) - 1] = [0..int n - 1] @ [int n]"
    using upto_rec2 [of 0 "int n"] by simp
  with Suc show ?case by simp
qed

lemma window_text_kv:
  assumes "n \<le> 100000"
  shows "window_text pf (kv_device_of r n) = concat (map (\<lambda>i. serialize (r i)) [0..<n])"
proof -
  have l: "logIndex (kv_device_of r n) = int n" by (simp add: kv_device_of_def)
  have m: "map (entry_text pf (kv_device_of r n)) (map int [0..<n])
      = map (\<lambda>i. serialize (r i)) [0..<n]"
    using assms by (simp add: entry_text_kv)
  have "window_text pf (kv_device_of r n)
      = concat (map (entry_text pf (kv_device_of r n)) [0..int n - 1])"
    using assms unfolding window_text_def l by (simp add: MAX_LOG_ENTRIES_def)
  then show ?thesis by (simp only: upto_as_upt m)
qed

lemma prepare_small:
  assumes "0 \<le> logIndex d" and "logIndex d \<le> 200" and "window_text pf d \<noteq> []"
  shows "loggedDataCache (prepareLoggedDataForChunking pf d s) = window_text pf d"
    and "entriesProcessed (prepareLoggedDataForChunking pf d s) = logIndex d"
    and "totalEntriesToSend (prepareLoggedDataForChunking pf d s) = logIndex d"
    and "totalChunks (prepareLoggedDataForChunking pf d s)
           = max 1 (c_div (logIndex d * 30 + 399) 400)"
proof -
  have w: "window_text pf d = concat (map (entry_text pf d) [0..logIndex d - 1])"
    using assms(1,2) by (simp add: window_text_def MAX_LOG_ENTRIES_def)
  show "loggedDataCache (prepareLoggedDataForChunking pf d s) = window_text pf d"
    using assms unfolding prepare_cache w
    by (simp add: MAX_LOG_ENTRIES_def ENTRIES_PER_BATCH_def Let_def del: concat_eq_Nil_conv)
  show "entriesProcessed (prepareLoggedDataForChunking pf d s) = logIndex d"
    using assms(1,2) unfolding prepare_fields
    by (simp add: MAX_LOG_ENTRIES_def ENTRIES_PER_BATCH_def)
  show "totalEntriesToSend (prepareLoggedDataForChunking pf d s) = logIndex d"
    using assms(1,2) unfolding prepare_fields by (simp add: MAX_LOG_ENTRIES_def)
  show "totalChunks (prepareLoggedDataForChunking pf d s)
      = max 1 (c_div (logIndex d * 30 + 399) 400)"
    using assms(1,2) unfolding prepare_fields
    by (simp add: MAX_LOG_ENTRIES_def MAX_CHUNK_SIZE_def add.commute)
qed

lemma length_window_numbered:
  "n \<le> 100000 \<Longrightarrow> length (window_text pf (kv_device_of numbered_record n)) = 22 * n"
  using length_concat_const [of "[0..<n]" "\<lambda>i. serialize (numbered_record i)" 22]
  by (simp add: window_text_kv length_serialize_numbered)

lemma length_window_wide:
  "n \<le> 100000 \<Longrightarrow> length (window_text pf (kv_device_of wide_record n)) = 25 * n"
  using length_concat_const [of "[0..<n]" "\<lambda>i. serialize (wide_record i)" 25]
  by (simp add: window_text_kv length_serialize_wide)

lemma logIndex_kv [simp]: "logIndex (kv_device_of r n) = int n"
  by (simp add: kv_device_of_def)

section \<open>Serving a chunk request\<close>

text \<open>A request served from a cache that is not empty and either holds a full chunk or is
  all that is left of the window, and two such requests in a row.\<close>

lemma onWrite_front_of_cache:
  assumes "0 \<le> j" and "j < totalChunks s" and "loggedDataCache s \<noteq> []"
    and "400 \<le> length (loggedDataCache s) \<or> totalEntriesToSend s \<le> entriesProcessed s"
  shows "onWrite_CHUNK_REQUEST pf d j s
      = (Some (take 400 (loggedDataCache s)),
         s\<lparr>currentChunk := j, loggedDataCache := drop 400 (loggedDataCache s)\<rparr>)"
proof (cases "400 \<le> length (loggedDataCache s)")
  case True
  then show ?thesis by (rule onWrite_full_chunk [OF assms(1,2)])
next
  case False
  with assms(4) have e: "totalEntriesToSend s \<le> entriesProcessed s" and l: "length (loggedDataCache s) < 400"
    by simp_all
  from l show ?thesis
    by (simp add: onWrite_rest_of_cache [OF assms(1,2,3) l e])
qed

lemma onWrite_twice:
  assumes k: "0 \<le> k" "k < totalChunks s" and k': "0 \<le> k'" "k' < totalChunks s"
    and l: "800 \<le> length (loggedDataCache s)
        \<or> 400 < length (loggedDataCache s) \<and> totalEntriesToSend s \<le> entriesProcessed s"
  shows "fst (request_chunks pf d [k, k'] s)
      = [take 400 (loggedDataCache s), take 400 (drop 400 (loggedDataCache s))]"
proof -
  let ?c = "loggedDataCache s"
  let ?s1 = "s\<lparr>currentChunk := k, loggedDataCache := drop 400 ?c\<rparr>"
  from l have ne: "?c \<noteq> []" and f: "400 \<le> length ?c \<or> totalEntriesToSend s \<le> entriesProcessed s"
    by auto
  have q0: "onWrite_CHUNK_REQUEST pf d k s = (Some (take 400 ?c), ?s1)"
    by (rule onWrite_front_of_cache [OF k ne f])
  have t1: "k' < totalChunks ?s1" using k'(2) by simp
  from l have ne1: "loggedDataCache ?s1 \<noteq> []" by auto
  from l have f1: "400 \<le> length (loggedDataCache ?s1)
      \<or> totalEntriesToSend ?s1 \<le> entriesProcessed ?s1" by auto
  have q1: "onWrite_CHUNK_REQUEST pf d k' ?s1
      = (Some (take 400 (loggedDataCache ?s1)),
         ?s1\<lparr>currentChunk := k', loggedDataCache := drop 400 (loggedDataCache ?s1)\<rparr>)"
    by (rule onWrite_front_of_cache [OF k'(1) t1 ne1 f1])
  show ?thesis
    by (simp add: q0 q1)
qed

text \<open>
  Claim C6, as the code has it. The requested index takes no part in choosing the
  payload: two requests for indices in range, made in the same session state, deliver the
  same payload and leave the same session but for \<^verbatim>\<open>currentChunk\<close>. When the cache
  is not empty and either holds at least 400 bytes or no records remain to be loaded, the
  request records the index in \<^verbatim>\<open>currentChunk\<close>, delivers the first 400 bytes of the
  cache (all of it when it is shorter) and removes them from the cache. So when such a
  request leaves a cache that can be served in the same way (it held at least 800 bytes,
  or more than 400 with no records left to load), a second request for any index in
  range, the same or an earlier one included, is sent the bytes that follow those just
  delivered. The statement is silent on what a request finds in an empty cache, or in a
  cache shorter than a chunk while records remain, apart from its not depending on the
  index.
\<close>

theorem chunk_request_serves_front_of_cache:
  assumes "0 \<le> k" and "k < totalChunks s" and "0 \<le> k'" and "k' < totalChunks s"
  shows "fst (onWrite_CHUNK_REQUEST pf d k s) = fst (onWrite_CHUNK_REQUEST pf d k' s)
    \<and> (snd (onWrite_CHUNK_REQUEST pf d k s))\<lparr>currentChunk := c\<rparr>
        = (snd (onWrite_CHUNK_REQUEST pf d k' s))\<lparr>currentChunk := c\<rparr>
    \<and> (loggedDataCache s \<noteq> []
        \<and> (400 \<le> length (loggedDataCache s) \<or> totalEntriesToSend s \<le> entriesProcessed s)
        \<longrightarrow>
          onWrite_CHUNK_REQUEST pf d k s
            = (Some (take 400 (loggedDataCache s)),
               s\<lparr>currentChunk := k, loggedDataCache := drop 400 (loggedDataCache s)\<rparr>))
    \<and> (800 \<le> length (loggedDataCache s)
        \<or> 400 < length (loggedDataCache s) \<and> totalEntriesToSend s \<le> entriesProcessed s
        \<longrightarrow>
          fst (request_chunks pf d [k, k'] s)
            = [take 400 (loggedDataCache s), take 400 (drop 400 (loggedDataCache s))])"
proof -
  have a: "fst (onWrite_CHUNK_REQUEST pf d k s) = fst (onWrite_CHUNK_REQUEST pf d k' s)"
    using onWrite_in_range [OF assms(1,2), of pf d] onWrite_in_range [OF assms(3,4), of pf d]
    by simp
  have b: "(snd (onWrite_CHUNK_REQUEST pf d k s))\<lparr>currentChunk := c\<rparr>
        = (snd (onWrite_CHUNK_REQUEST pf d k' s))\<lparr>currentChunk := c\<rparr>"
    using onWrite_in_range [OF assms(1,2), of pf d] onWrite_in_range [OF assms(3,4), of pf d]
    by simp
  have c: "loggedDataCache s \<noteq> []
        \<and> (400 \<le> length (loggedDataCache s) \<or> totalEntriesToSend s \<le> entriesProcessed s)
        \<longrightarrow>
          onWrite_CHUNK_REQUEST pf d k s
            = (Some (take 400 (loggedDataCache s)),
               s\<lparr>currentChunk := k, loggedDataCache := drop 400 (loggedDataCache s)\<rparr>)"
    using onWrite_front_of_cache [OF assms(1,2), of pf d] by blast
  have d: "800 \<le> length (loggedDataCache s)
        \<or> 400 < length (loggedDataCache s) \<and> totalEntriesToSend s \<le> entriesProcessed s
        \<longrightarrow>
          fst (request_chunks pf d [k, k'] s)
            = [take 400 (loggedDataCache s), take 400 (drop 400 (loggedDataCache s))]"
    using onWrite_twice [OF assms, of pf d] by blast
  from a b c d show ?thesis by (intro conjI)
qed

theorem chunk_request_serves_front_of_cache_witness:
  "totalChunks (snd (onWrite_CHUNK_REQUEST healthy (kv_device_of numbered_record 20) (- 1)
       idle_session)) = 2
   \<and> length (loggedDataCache (snd (onWrite_CHUNK_REQUEST healthy
       (kv_device_of numbered_record 20) (- 1) idle_session))) = 440
   \<and> entriesProcessed (snd (onWrite_CHUNK_REQUEST healthy
       (kv_device_of numbered_record 20) (- 1) idle_session)) = 20
   \<and> totalEntriesToSend (snd (onWrite_CHUNK_REQUEST healthy
       (kv_device_of numbered_record 20) (- 1) idle_session)) = 20
   \<and> fst (onWrite_CHUNK_REQUEST healthy (kv_device_of numbered_record 20) 1
        (snd (onWrite_CHUNK_REQUEST healthy (kv_device_of numbered_record 20) (- 1)
           idle_session)))
     = fst (onWrite_CHUNK_REQUEST healthy (kv_device_of numbered_record 20) 0
        (snd (onWrite_CHUNK_REQUEST healthy (kv_device_of numbered_record 20) (- 1)
           idle_session)))
   \<and> fst (onWrite_CHUNK_REQUEST healthy (kv_device_of numbered_record 20) 1
        (snd (onWrite_CHUNK_REQUEST healthy (kv_device_of numbered_record 20) (- 1)
           idle_session)))
     = Some (take 400 (window_text healthy (kv_device_of numbered_record 20)))
   \<and> currentChunk (snd (onWrite_CHUNK_REQUEST healthy (kv_device_of numbered_record 20) 1
        (snd (onWrite_CHUNK_REQUEST healthy (kv_device_of numbered_record 20) (- 1)
           idle_session)))) = 1
   \<and> fst (request_chunks healthy (kv_device_of numbered_record 20) [1, 0]
        (snd (onWrite_CHUNK_REQUEST healthy (kv_device_of numbered_record 20) (- 1)
           idle_session)))
     = [take 400 (window_text healthy (kv_device_of numbered_record 20)),
        take 400 (drop 400 (window_text healthy (kv_device_of numbered_record 20)))]"
proof -
  let ?d = "kv_device_of numbered_record 20"
  let ?W = "window_text healthy ?d"
  let ?s0 = "snd (onWrite_CHUNK_REQUEST healthy ?d (- 1) idle_session)"
  have p: "?s0 = prepareLoggedDataForChunking healthy ?d idle_session"
    by (simp add: onWrite_CHUNK_REQUEST_def)
  have lw: "length ?W = 440"
    using length_window_numbered [of 20 healthy] by simp
  then have ne: "?W \<noteq> []" by (metis length_0_conv zero_neq_numeral)
  have c: "loggedDataCache ?s0 = ?W"
    unfolding p by (rule prepare_small(1)) (simp_all add: ne)
  have t: "totalChunks ?s0 = 2"
    unfolding p using prepare_small(4) [of ?d healthy idle_session] ne
    by (simp add: c_div_def)
  have e: "entriesProcessed ?s0 = 20" "totalEntriesToSend ?s0 = 20"
    unfolding p using prepare_small(2,3) [of ?d healthy idle_session] ne by simp_all
  have l: "length (loggedDataCache ?s0) = 440" using c lw by simp
  have h1: "(0::int) \<le> 1" and h2: "1 < totalChunks ?s0" and h3: "(0::int) \<le> 0"
    and h4: "0 < totalChunks ?s0"
    using t by simp_all
  have h5: "loggedDataCache ?s0 \<noteq> []
      \<and> (400 \<le> length (loggedDataCache ?s0)
         \<or> totalEntriesToSend ?s0 \<le> entriesProcessed ?s0)"
    using l ne c by simp
  have h6: "800 \<le> length (loggedDataCache ?s0)
      \<or> 400 < length (loggedDataCache ?s0)
        \<and> totalEntriesToSend ?s0 \<le> entriesProcessed ?s0"
    using l e by simp
  note th = chunk_request_serves_front_of_cache [OF h1 h2 h3 h4, of healthy ?d 0]
  note same = th [THEN conjunct1]
  note front = th [THEN conjunct2, THEN conjunct2, THEN conjunct1, rule_format, OF h5]
  note both = th [THEN conjunct2, THEN conjunct2, THEN conjunct2, rule_format, OF h6]
  have first: "fst (onWrite_CHUNK_REQUEST healthy ?d 1 ?s0) = Some (take 400 ?W)"
    by (simp only: front fst_conv c)
  have cur: "currentChunk (snd (onWrite_CHUNK_REQUEST healthy ?d 1 ?s0)) = 1"
    by (simp only: front snd_conv) simp
  have two: "fst (request_chunks healthy ?d [1, 0] ?s0)
      = [take 400 ?W, take 400 (drop 400 ?W)]"
    using both by (simp only: c)
  show ?thesis
    using t l e same first cur two by (intro conjI)
qed

text \<open>
  With twenty records prepared, 440 bytes in all, chunk 0 is requested twice in a row: the
  first request is sent the first 400 bytes, the second the 40 bytes that follow them.
\<close>

theorem repeated_request_gets_next_bytes:
  "fst (onWrite_CHUNK_REQUEST healthy (kv_device_of numbered_record 20) 0
        (snd (onWrite_CHUNK_REQUEST healthy (kv_device_of numbered_record 20) (- 1)
           idle_session)))
     = Some (take 400 (window_text healthy (kv_device_of numbered_record 20)))
   \<and> fst (onWrite_CHUNK_REQUEST healthy (kv_device_of numbered_record 20) 0
        (snd (onWrite_CHUNK_REQUEST healthy (kv_device_of numbered_record 20) 0
           (snd (onWrite_CHUNK_REQUEST healthy (kv_device_of numbered_record 20) (- 1)
              idle_session)))))
     = Some (drop 400 (window_text healthy (kv_device_of numbered_record 20)))
   \<and> take 400 (window_text healthy (kv_device_of numbered_record 20))
     \<noteq> drop 400 (window_text healthy (kv_device_of numbered_record 20))"
proof -
  let ?d = "kv_device_of numbered_record 20"
  let ?W = "window_text healthy ?d"
  let ?s0 = "snd (onWrite_CHUNK_REQUEST healthy ?d (- 1) idle_session)"
  have p: "?s0 = prepareLoggedDataForChunking healthy ?d idle_session"
    by (simp add: onWrite_CHUNK_REQUEST_def)
  have lw: "length ?W = 440"
    using length_window_numbered [of 20 healthy] by simp
  then have ne: "?W \<noteq> []" by (metis length_0_conv zero_neq_numeral)
  have c: "loggedDataCache ?s0 = ?W"
    unfolding p by (rule prepare_small(1)) (simp_all add: ne)
  have t: "totalChunks ?s0 = 2"
    unfolding p using prepare_small(4) [of ?d healthy idle_session] ne
    by (simp add: c_div_def)
  have e: "entriesProcessed ?s0 = 20" "totalEntriesToSend ?s0 = 20"
    unfolding p using prepare_small(2,3) [of ?d healthy idle_session] ne by simp_all
  have q0: "onWrite_CHUNK_REQUEST healthy ?d 0 ?s0
      = (Some (take 400 ?W), ?s0\<lparr>currentChunk := 0, loggedDataCache := drop 400 ?W\<rparr>)"
    using onWrite_full_chunk [of 0 ?s0 healthy ?d] t c lw by simp
  let ?s1 = "?s0\<lparr>currentChunk := 0, loggedDataCache := drop 400 ?W\<rparr>"
  have dl: "length (drop 400 ?W) = 40" using lw by simp
  then have dn: "drop 400 ?W \<noteq> []" by (metis length_0_conv zero_neq_numeral)
  have q1: "onWrite_CHUNK_REQUEST healthy ?d 0 ?s1
      = (Some (drop 400 ?W), ?s1\<lparr>currentChunk := 0, loggedDataCache := []\<rparr>)"
    using onWrite_rest_of_cache [of 0 ?s1 healthy ?d] t e dl dn by simp
  have "length (take 400 ?W) = 400" using lw by simp
  with dl have ne2: "take 400 ?W \<noteq> drop 400 ?W" by (metis numeral_eq_iff semiring_norm(89) num.inject(1,2) num.distinct)
  have a: "fst (onWrite_CHUNK_REQUEST healthy ?d 0 ?s0) = Some (take 400 ?W)"
    by (simp only: q0 fst_conv)
  have b: "fst (onWrite_CHUNK_REQUEST healthy ?d 0
      (snd (onWrite_CHUNK_REQUEST healthy ?d 0 ?s0))) = Some (drop 400 ?W)"
    by (simp only: q0 snd_conv q1 fst_conv)
  from a b ne2 show ?thesis by blast
qed

section \<open>The chunk estimate and the first two chunks\<close>

text \<open>
  Claim C7, as the code has it. With 450 retained records of 25 serialized bytes each
  and the 400-byte chunk budget, a prepare request sets \<^verbatim>\<open>totalChunks\<close> to 34, the
  estimate of 30 characters a record rounded up to whole chunks; chunk 0 and then chunk 1
  are the first and the second 400 bytes of the full serialization, so each is at most 400
  bytes and together they are a strict prefix of it.
\<close>

theorem prepare_450_records:
  assumes li: "logIndex d = 450"
    and len: "\<forall>i. 0 \<le> i \<and> i < 450 \<longrightarrow> length (entry_text pf d i) = 25"
    and s0: "s0 = snd (onWrite_CHUNK_REQUEST pf d (- 1) s)"
    and r0: "(p0, s1) = onWrite_CHUNK_REQUEST pf d 0 s0"
    and r1: "(p1, s2) = onWrite_CHUNK_REQUEST pf d 1 s1"
  shows "totalChunks s0 = 34
    \<and> p0 = Some (take 400 (window_text pf d))
    \<and> p1 = Some (take 400 (drop 400 (window_text pf d)))
    \<and> length (take 400 (window_text pf d)) \<le> 400
    \<and> length (take 400 (drop 400 (window_text pf d))) \<le> 400
    \<and> strict_prefix (take 400 (window_text pf d) @ take 400 (drop 400 (window_text pf d)))
         (window_text pf d)"
proof -
  let ?W = "window_text pf d"
  let ?B = "concat (map (entry_text pf d) [0..199])"
  let ?R = "concat (map (entry_text pf d) [200..449])"
  have W: "?W = ?B @ ?R"
  proof -
    have "[0..449] = [0..199] @ [200..449]"
      using upto_split2 [of 0 199 449] by simp
    then show ?thesis
      using li by (simp add: window_text_def MAX_LOG_ENTRIES_def)
  qed
  have lB: "length ?B = 5000"
    using length_concat_const [of "[0..199]" "entry_text pf d" 25] len by simp
  have lR: "length ?R = 6250"
    using length_concat_const [of "[200..449]" "entry_text pf d" 25] len by simp
  have p: "s0 = prepareLoggedDataForChunking pf d s"
    using s0 by (simp add: onWrite_CHUNK_REQUEST_def)
  have tc: "totalChunks s0 = 34"
    using li unfolding p prepare_fields
    by (simp add: MAX_LOG_ENTRIES_def MAX_CHUNK_SIZE_def c_div_def)
  have c0: "loggedDataCache s0 = ?B"
  proof -
    have "?B \<noteq> []" using lB by (metis length_0_conv zero_neq_numeral)
    then show ?thesis
      using li unfolding p prepare_cache
      by (simp add: MAX_LOG_ENTRIES_def ENTRIES_PER_BATCH_def Let_def
          del: concat_eq_Nil_conv)
  qed
  have q0: "onWrite_CHUNK_REQUEST pf d 0 s0
      = (Some (take 400 ?B), s0\<lparr>currentChunk := 0, loggedDataCache := drop 400 ?B\<rparr>)"
    using onWrite_full_chunk [of 0 s0 pf d] tc c0 lB by simp
  from r0 q0 have p0: "p0 = Some (take 400 ?B)"
    and s1: "s1 = s0\<lparr>currentChunk := 0, loggedDataCache := drop 400 ?B\<rparr>"
    by simp_all
  have q1: "onWrite_CHUNK_REQUEST pf d 1 s1
      = (Some (take 400 (drop 400 ?B)),
         s1\<lparr>currentChunk := 1, loggedDataCache := drop 400 (drop 400 ?B)\<rparr>)"
    using onWrite_full_chunk [of 1 s1 pf d] tc lB unfolding s1 by simp
  from r1 q1 have p1: "p1 = Some (take 400 (drop 400 ?B))" by simp
  have t0: "take 400 ?W = take 400 ?B" using lB by (simp add: W)
  have t1: "take 400 (drop 400 ?W) = take 400 (drop 400 ?B)" using lB by (simp add: W)
  have j: "take 400 ?W @ take 400 (drop 400 ?W) = take 800 ?W"
    using take_add [of 400 400 ?W] by simp
  have sp: "strict_prefix (take 800 ?W) ?W"
  proof -
    have "prefix (take 800 ?W) ?W" by (rule take_is_prefix)
    moreover have "length (take 800 ?W) \<noteq> length ?W" using lB lR by (simp add: W)
    ultimately show ?thesis by (auto simp: strict_prefix_def)
  qed
  show ?thesis
    using tc p0 p1 sp unfolding t0 [symmetric] t1 [symmetric] j by simp
qed

theorem prepare_450_records_witness:
  "logIndex (kv_device_of wide_record 450) = 450
   \<and> length (entry_text healthy (kv_device_of wide_record 450) 449) = 25
   \<and> totalChunks (snd (onWrite_CHUNK_REQUEST healthy (kv_device_of wide_record 450) (- 1)
        idle_session)) = 34
   \<and> fst (onWrite_CHUNK_REQUEST healthy (kv_device_of wide_record 450) 0
        (snd (onWrite_CHUNK_REQUEST healthy (kv_device_of wide_record 450) (- 1)
           idle_session)))
     = Some (take 400 (window_text healthy (kv_device_of wide_record 450)))
   \<and> strict_prefix
        (take 400 (window_text healthy (kv_device_of wide_record 450))
           @ take 400 (drop 400 (window_text healthy (kv_device_of wide_record 450))))
        (window_text healthy (kv_device_of wide_record 450))"
proof -
  let ?d = "kv_device_of wide_record 450"
  have li: "logIndex ?d = 450" by simp
  have len: "\<forall>i. 0 \<le> i \<and> i < 450 \<longrightarrow> length (entry_text healthy ?d i) = 25"
  proof (intro allI impI)
    fix i :: int
    assume "0 \<le> i \<and> i < 450"
    then have n: "nat i < 450" and i: "i = int (nat i)" by linarith+
    have "length (entry_text healthy ?d (int (nat i))) = 25"
      using n entry_text_kv [of "nat i" 450 healthy wide_record]
        length_serialize_wide [of "nat i"] by simp
    then show "length (entry_text healthy ?d i) = 25" by (simp only: i [symmetric])
  qed
  from len have l449: "length (entry_text healthy ?d 449) = 25" by simp
  note th = prepare_450_records [OF li len refl prod.collapse prod.collapse,
      of idle_session]
  from li l449 th [THEN conjunct1] th [THEN conjunct2, THEN conjunct1]
    th [THEN conjunct2, THEN conjunct2, THEN conjunct2, THEN conjunct2, THEN conjunct2]
  show ?thesis by (intro conjI)
qed

text \<open>
  With 450 records of 25 serialized bytes retained, 11250 bytes in all, a prepare request
  sets \<^verbatim>\<open>totalChunks\<close> to 34 and not to 29.
\<close>

theorem prepare_450_records_estimate:
  "logIndex (kv_device_of wide_record 450) = 450
   \<and> length (window_text healthy (kv_device_of wide_record 450)) = 11250
   \<and> totalChunks (snd (onWrite_CHUNK_REQUEST healthy (kv_device_of wide_record 450) (- 1)
        idle_session)) = 34
   \<and> totalChunks (snd (onWrite_CHUNK_REQUEST healthy (kv_device_of wide_record 450) (- 1)
        idle_session)) \<noteq> 29"
proof -
  let ?d = "kv_device_of wide_record 450"
  have l: "length (window_text healthy ?d) = 11250"
    using length_window_wide [of 450 healthy] by simp
  have t: "totalChunks (snd (onWrite_CHUNK_REQUEST healthy ?d (- 1) idle_session)) = 34"
    by (simp add: onWrite_CHUNK_REQUEST_def prepare_fields MAX_LOG_ENTRIES_def
        MAX_CHUNK_SIZE_def c_div_def)
  from l t show ?thesis by simp
qed

section \<open>Completeness of a download\<close>


text \<open>When the cache holds less than a chunk and records remain, the next batch replaces
  the cache: the payload is cut from the new batch alone, and what was left of the old
  cache is never sent.\<close>

lemma send_reload_discards_cache:
  assumes "loggedDataCache s \<noteq> []" and "length (loggedDataCache s) < 400"
    and "entriesProcessed s < totalEntriesToSend s"
  shows "fst (sendLoggedDataChunk pf d s) = take 400 (loggedDataCache (loadNextBatch pf d s))"
proof -
  let ?c = "loggedDataCache (loadNextBatch pf d s)"
  have n: "?c \<noteq> []" by (rule loadNextBatch_fields(6))
  have "take (nat (min 400 (int (length ?c)))) ?c = take 400 ?c"
    by (cases "length ?c \<le> 400") (simp_all add: min_def)
  then show ?thesis
    using assms n by (simp add: sendLoggedDataChunk_def Let_def MAX_CHUNK_SIZE_def)
qed

text \<open>
  Claim C2 on a failing input. Fourteen records of 22 serialized bytes are retained, 308
  bytes in all, and \<^verbatim>\<open>totalChunks\<close> is estimated as 2. Chunk 0 delivers the whole
  serialization and empties the cache; the request for chunk 1 finds the cache empty,
  prepares the session again and delivers the whole serialization a second time.
\<close>

theorem download_repeats_small_log:
  "length (window_text healthy (kv_device_of numbered_record 14)) = 308
   \<and> totalChunks (snd (onWrite_CHUNK_REQUEST healthy (kv_device_of numbered_record 14) (- 1)
        idle_session)) = 2
   \<and> download healthy (kv_device_of numbered_record 14) idle_session
     = window_text healthy (kv_device_of numbered_record 14)
         @ window_text healthy (kv_device_of numbered_record 14)
   \<and> download healthy (kv_device_of numbered_record 14) idle_session
     \<noteq> window_text healthy (kv_device_of numbered_record 14)"
proof -
  let ?d = "kv_device_of numbered_record 14"
  let ?W = "window_text healthy ?d"
  let ?s0 = "prepareLoggedDataForChunking healthy ?d idle_session"
  have p: "snd (onWrite_CHUNK_REQUEST healthy ?d (- 1) idle_session) = ?s0"
    by (simp add: onWrite_CHUNK_REQUEST_def)
  have lw: "length ?W = 308"
    using length_window_numbered [of 14 healthy] by simp
  then have ne: "?W \<noteq> []" by (metis length_0_conv zero_neq_numeral)
  have c: "loggedDataCache ?s0 = ?W"
    by (rule prepare_small(1)) (simp_all add: ne)
  have t: "totalChunks ?s0 = 2"
    using prepare_small(4) [of ?d healthy idle_session] ne by (simp add: c_div_def)
  have e: "entriesProcessed ?s0 = 14" "totalEntriesToSend ?s0 = 14"
    using prepare_small(2,3) [of ?d healthy idle_session] ne by simp_all
  let ?s1 = "?s0\<lparr>currentChunk := 0, loggedDataCache := []\<rparr>"
  have q0: "onWrite_CHUNK_REQUEST healthy ?d 0 ?s0 = (Some ?W, ?s1)"
    using onWrite_rest_of_cache [of 0 ?s0 healthy ?d] t e c lw ne by simp
  have snd0: "sendLoggedDataChunk healthy ?d ?s0 = (?W, ?s0\<lparr>loggedDataCache := []\<rparr>)"
    using send_rest_of_cache [of ?s0 healthy ?d] e c lw ne by simp
  have "sendLoggedDataChunk healthy ?d ?s1
      = sendLoggedDataChunk healthy ?d (prepareLoggedDataForChunking healthy ?d ?s1)"
    by (rule send_empty_cache) simp
  also have "prepareLoggedDataForChunking healthy ?d ?s1 = ?s0"
    by (rule prepare_independent)
  finally have snd1: "sendLoggedDataChunk healthy ?d ?s1 = (?W, ?s0\<lparr>loggedDataCache := []\<rparr>)"
    using snd0 by simp
  have q1: "onWrite_CHUNK_REQUEST healthy ?d 1 ?s1 = (Some ?W, ?s0\<lparr>loggedDataCache := []\<rparr>)"
    using onWrite_in_range [of 1 ?s1 healthy ?d] t snd1 by simp
  have u: "[0..totalChunks ?s0 - 1] = [0, 1]"
    unfolding t by (simp add: upto_rec1)
  have dl: "download healthy ?d idle_session = ?W @ ?W"
    unfolding download_def Let_def p u by (simp add: q0 q1)
  have "length (?W @ ?W) \<noteq> length ?W" using lw by simp
  then have "?W @ ?W \<noteq> ?W" by metis
  with dl lw t p show ?thesis by simp
qed

section \<open>Decoding a short record\<close>

lemma dec_nat_numeral:
  "dec_nat (numeral k) =
     (if numeral k < (10::nat) then [digit_char (numeral k)]
      else dec_nat (numeral k div 10) @ [digit_char (numeral k mod 10)])"
  by (rule dec_nat.simps)

lemma dec_nat_0: "dec_nat 0 = ''0''"
  by (simp add: dec_nat.simps digit_char_def)

lemma dec_nat_1: "dec_nat 1 = ''1''" "dec_nat (Suc 0) = ''1''"
  by (simp_all add: dec_nat.simps digit_char_def)

lemmas dec_nat_eval = dec_nat_numeral dec_nat_0 dec_nat_1 digit_char_def

text \<open>
  Claim C8 on a failing input. A log file that holds only the first five bytes of a
  record is decoded by \<^verbatim>\<open>readLogFromLittleFS\<close> into a record, the bytes read and
  zeros after them, and \<^verbatim>\<open>loadNextBatch\<close> takes that record as valid and serializes
  it; the same five bytes under a Preferences key are refused.
\<close>

theorem short_log_file_is_decoded:
  "readLogFromLittleFS healthy truncated_file_device 0
     = \<lparr>timestamp = 1700000000, pm1_0_env = 5, pm2_5_env = 0, pm10_0_env = 0,
        battery_level = 0\<rparr>
   \<and> load_entry healthy truncated_file_device 0
     = Some \<lparr>timestamp = 1700000000, pm1_0_env = 5, pm2_5_env = 0, pm10_0_env = 0,
        battery_level = 0\<rparr>
   \<and> entry_text healthy truncated_file_device 0 = ''1700000000,5,0,0,0;''
   \<and> load_entry healthy truncated_blob_device 0 = None"
proof -
  have r: "readLogFromLittleFS healthy truncated_file_device 0
     = \<lparr>timestamp = 1700000000, pm1_0_env = 5, pm2_5_env = 0, pm10_0_env = 0,
        battery_level = 0\<rparr>"
    by code_simp
  have l: "load_entry healthy truncated_file_device 0
     = Some \<lparr>timestamp = 1700000000, pm1_0_env = 5, pm2_5_env = 0, pm10_0_env = 0,
        battery_level = 0\<rparr>"
    by code_simp
  have t: "entry_text healthy truncated_file_device 0 = ''1700000000,5,0,0,0;''"
    unfolding entry_text_def l by (simp add: serialize_def dec_nat_eval)
  have b: "load_entry healthy truncated_blob_device 0 = None"
    by code_simp
  from r l t b show ?thesis by (intro conjI)
qed

section \<open>Migration and the next boot\<close>

lemma migrate_entry_none:
  assumes "\<not> has_legacy_log (preferences d) i" and "\<not> has_legacy_data (preferences d) i"
  shows "migrate_entry pf i (d, mig, err) = (d, mig, err + 1)"
proof -
  obtain n b where g: "prefs_getBytes (preferences d) (legacy_key i) sizeof_LogData = (n, b)"
    by (cases "prefs_getBytes (preferences d) (legacy_key i) sizeof_LogData")
  obtain k lb where g2: "prefs_getBytes (preferences d) (data_key i) sizeof_SensorData = (k, lb)"
    by (cases "prefs_getBytes (preferences d) (data_key i) sizeof_SensorData")
  from assms g g2 have "n \<noteq> sizeof_LogData" and "k \<noteq> sizeof_SensorData"
    by (simp_all add: has_legacy_log_def has_legacy_data_def)
  with g g2 show ?thesis by (simp add: migrate_entry_def)
qed

lemma migrate_loop_idle:
  "\<forall>j. i \<le> j \<and> j < L \<longrightarrow>
      \<not> has_legacy_log (preferences d) j \<and> \<not> has_legacy_data (preferences d) j \<Longrightarrow>
   \<exists>err'. migrate_loop pf L i (d, mig, err) = (d, mig, err')"
proof (induction "nat (L - i)" arbitrary: i err)
  case 0
  then show ?case by (simp add: migrate_loop.simps)
next
  case (Suc n)
  from Suc.hyps(2) have lt: "i < L" by simp
  with Suc.prems have "\<not> has_legacy_log (preferences d) i" "\<not> has_legacy_data (preferences d) i"
    by simp_all
  then have st: "migrate_entry pf i (d, mig, err) = (d, mig, err + 1)"
    by (rule migrate_entry_none)
  have n: "n = nat (L - (i + 1))" using Suc.hyps(2) by simp
  have "\<forall>j. i + 1 \<le> j \<and> j < L \<longrightarrow>
      \<not> has_legacy_log (preferences d) j \<and> \<not> has_legacy_data (preferences d) j"
    using Suc.prems by simp
  from Suc.hyps(1) [OF n this, of "err + 1"] obtain err'
    where "migrate_loop pf L (i + 1) (d, mig, err + 1) = (d, mig, err')" by blast
  with lt st have "migrate_loop pf L i (d, mig, err) = (d, mig, err')"
    by (subst migrate_loop.simps) simp
  then show ?case by blast
qed

lemma write_metadata_ok:
  assumes "\<And>d p. fs_open_w_ok pf d p"
  shows "write_metadata pf d
     = d\<lparr>files := (files d)(metadata_path \<mapsto>
            text_bytes (String_int (logIndex d) @ [CHR 0x0D, CHR 0x0A]))\<rparr>"
  using assms by (simp add: write_metadata_def)

lemma prefs_put_ok:
  assumes "\<And>d k v. nvs_put_ok pf d k v"
  shows "snd (prefs_put pf key v d) = d\<lparr>preferences := (preferences d)(key \<mapsto> v)\<rparr>"
  using assms by (simp add: prefs_put_def)

text \<open>The end of \<^verbatim>\<open>migrateLegacyData\<close> after the loop, on a healthy flash.\<close>

lemma migrate_finish:
  assumes ok: "\<And>d p. fs_open_w_ok pf d p" "\<And>d k v. nvs_put_ok pf d k v"
    and L: "0 < prefs_getInt (preferences d) ''logIndex'' 0"
    and lp: "migrate_loop pf (prefs_getInt (preferences d) ''logIndex'' 0) 0 (d, 0, 0)
               = (d1, mig, err)"
  shows "migrateLegacyData pf d
     = d1\<lparr>files := (files d1)(metadata_path \<mapsto>
              text_bytes (String_int (logIndex d1) @ [CHR 0x0D, CHR 0x0A])),
           preferences := (preferences d1)(''logIndex'' \<mapsto> PInt (logIndex d1)),
           useLittleFS := (if mig > 0 then True else useLittleFS d1)\<rparr>"
  using L lp
  by (simp add: migrateLegacyData_def Let_def write_metadata_ok [OF ok(1)]
      prefs_put_ok [OF ok(2)])

text \<open>
  The function writes the \<^verbatim>\<open>logIndex\<close> of RAM back to the metadata file and to
  Preferences whether or not it migrated anything. Called after a reset, as it always is,
  on a store whose count is positive but which holds no record in either legacy format
  below the count, it therefore replaces the stored count by 0 and leaves LittleFS
  switched off. That is the state of the store after every completed migration, and of
  every store the key-value backend has appended to.
\<close>

lemma migration_after_reset_zeroes_count:
  assumes ok: "\<And>d p. fs_open_w_ok pf d p" "\<And>d k v. nvs_put_ok pf d k v"
    and L: "0 < prefs_getInt (preferences d) ''logIndex'' 0"
    and none: "\<forall>j. 0 \<le> j \<and> j < prefs_getInt (preferences d) ''logIndex'' 0 \<longrightarrow>
        \<not> has_legacy_log (preferences d) j \<and> \<not> has_legacy_data (preferences d) j"
  shows "migrateLegacyData pf (power_on d)
     = (power_on d)\<lparr>files := (files d)(metadata_path \<mapsto>
                          text_bytes (''0'' @ [CHR 0x0D, CHR 0x0A])),
                     preferences := (preferences d)(''logIndex'' \<mapsto> PInt 0)\<rparr>"
proof -
  let ?r = "power_on d"
  have p: "preferences ?r = preferences d" and f: "files ?r = files d"
    and l: "logIndex ?r = 0" and u: "\<not> useLittleFS ?r"
    by (simp_all add: power_on_def)
  from none have "\<forall>j. 0 \<le> j \<and> j < prefs_getInt (preferences ?r) ''logIndex'' 0 \<longrightarrow>
        \<not> has_legacy_log (preferences ?r) j \<and> \<not> has_legacy_data (preferences ?r) j"
    by (simp only: p)
  from migrate_loop_idle [OF this, of pf 0 0] obtain err'
    where lp: "migrate_loop pf (prefs_getInt (preferences ?r) ''logIndex'' 0) 0 (?r, 0, 0)
        = (?r, 0, err')" by blast
  from L have L': "0 < prefs_getInt (preferences ?r) ''logIndex'' 0" by (simp only: p)
  have z: "String_int 0 = ''0''" by (simp add: String_int_def dec_nat.simps digit_char_def)
  show ?thesis
    unfolding migrate_finish [OF ok L' lp] by (simp add: p f l u z)
qed

text \<open>
  Claim C5 on a failing input. The flash holds three legacy records and the count 3; the
  device is reset twice, with nothing logged in between, so \<^verbatim>\<open>setup\<close> runs
  \<^verbatim>\<open>migrateLegacyData\<close> twice in succession. After the first run the three records are
  files of the file store, \<^verbatim>\<open>logIndex\<close> is 3 in RAM, in the metadata file and in
  Preferences, no legacy key is left and LittleFS is the active backend. The second run
  starts from \<^verbatim>\<open>logIndex = 0\<close> again, finds the count 3 and no legacy record, and
  writes 0 to the metadata file and to Preferences: LittleFS stays switched off,
  \<^verbatim>\<open>logIndex\<close> is loaded as 0, and the three files, still on the flash, are outside the
  window a transfer sends.
\<close>

theorem second_boot_forgets_migrated_log:
  "logIndex (boot healthy legacy_device) = 3
   \<and> useLittleFS (boot healthy legacy_device)
   \<and> preferences (boot healthy legacy_device) ''logIndex'' = Some (PInt 3)
   \<and> files (boot healthy legacy_device) metadata_path
       = Some (text_bytes (''3'' @ [CHR 0x0D, CHR 0x0A]))
   \<and> preferences (boot healthy legacy_device) ''log_0'' = None
   \<and> preferences (boot healthy legacy_device) ''log_1'' = None
   \<and> preferences (boot healthy legacy_device) ''data_2'' = None
   \<and> load_entry healthy (boot healthy legacy_device) 0 = Some (numbered_record 0)
   \<and> load_entry healthy (boot healthy legacy_device) 1 = Some (numbered_record 1)
   \<and> load_entry healthy (boot healthy legacy_device) 2 = Some sample_record
   \<and> totalEntriesToSend
        (prepareLoggedDataForChunking healthy (boot healthy legacy_device) idle_session) = 3
   \<and> logIndex (boot healthy (boot healthy legacy_device)) = 0
   \<and> \<not> useLittleFS (boot healthy (boot healthy legacy_device))
   \<and> preferences (boot healthy (boot healthy legacy_device)) ''logIndex'' = Some (PInt 0)
   \<and> files (boot healthy (boot healthy legacy_device)) metadata_path
       = Some (text_bytes (''0'' @ [CHR 0x0D, CHR 0x0A]))
   \<and> files (boot healthy (boot healthy legacy_device)) ''/logs/0/0.log''
       = Some (LogData_bytes 0 (numbered_record 0))
   \<and> totalEntriesToSend
        (prepareLoggedDataForChunking healthy (boot healthy (boot healthy legacy_device))
           idle_session) = 0
   \<and> loggedDataCache
        (prepareLoggedDataForChunking healthy (boot healthy (boot healthy legacy_device))
           idle_session) = ''No data available''"
proof -
  let ?once = "boot healthy legacy_device"
  let ?twice = "boot healthy (boot healthy legacy_device)"
  have a1: "logIndex ?once = 3" by code_simp
  have a2: "useLittleFS ?once" by code_simp
  have a3: "preferences ?once ''logIndex'' = Some (PInt 3)" by code_simp
  have a4: "files ?once metadata_path = Some (text_bytes (''3'' @ [CHR 0x0D, CHR 0x0A]))"
    by code_simp
  have a5: "preferences ?once ''log_0'' = None" by code_simp
  have a6: "preferences ?once ''log_1'' = None" by code_simp
  have a7: "preferences ?once ''data_2'' = None" by code_simp
  have a8: "load_entry healthy ?once 0 = Some (numbered_record 0)" by code_simp
  have a9: "load_entry healthy ?once 1 = Some (numbered_record 1)" by code_simp
  have a10: "load_entry healthy ?once 2 = Some sample_record" by code_simp
  have a11: "totalEntriesToSend (prepareLoggedDataForChunking healthy ?once idle_session) = 3"
    unfolding prepare_fields a1 by (simp add: MAX_LOG_ENTRIES_def)
  have b1: "logIndex ?twice = 0" by code_simp
  have b2: "\<not> useLittleFS ?twice" by code_simp
  have b3: "preferences ?twice ''logIndex'' = Some (PInt 0)" by code_simp
  have b4: "files ?twice metadata_path = Some (text_bytes (''0'' @ [CHR 0x0D, CHR 0x0A]))"
    by code_simp
  have b5: "files ?twice ''/logs/0/0.log'' = Some (LogData_bytes 0 (numbered_record 0))"
    by code_simp
  have b6: "totalEntriesToSend (prepareLoggedDataForChunking healthy ?twice idle_session) = 0"
    unfolding prepare_fields b1 by (simp add: MAX_LOG_ENTRIES_def)
  have b7: "loggedDataCache (prepareLoggedDataForChunking healthy ?twice idle_session)
      = ''No data available''"
    unfolding prepare_cache b1
    by (simp add: MAX_LOG_ENTRIES_def ENTRIES_PER_BATCH_def Let_def)
  from a1 a2 a3 a4 a5 a6 a7 a8 a9 a10 a11 b1 b2 b3 b4 b5 b6 b7 show ?thesis
    by (intro conjI)
qed

text \<open>
  A store in the legacy format that \<^verbatim>\<open>loadNextBatch\<close> reads, whole
  \<^verbatim>\<open>SensorData\<close> blobs under \<^verbatim>\<open>log_0\<close> and \<^verbatim>\<open>log_1\<close>, is not migrated at
  all: \<^verbatim>\<open>migrateLegacyData\<close> reads \<^verbatim>\<open>log_i\<close> only as a \<^verbatim>\<open>LogData\<close> and
  looks for \<^verbatim>\<open>SensorData\<close> under \<^verbatim>\<open>data_i\<close>. With the count loaded, the transfer
  reads both records; after one boot the two keys are still there, the count is 0 and
  the transfer has nothing to send.
\<close>

lemma sensor_format_store_is_stranded:
  "load_entry healthy (sensor_format_device\<lparr>logIndex := 2\<rparr>) 0 = Some sample_record
   \<and> load_entry healthy (sensor_format_device\<lparr>logIndex := 2\<rparr>) 1 = Some sample_record
   \<and> logIndex (boot healthy sensor_format_device) = 0
   \<and> \<not> useLittleFS (boot healthy sensor_format_device)
   \<and> preferences (boot healthy sensor_format_device) ''logIndex'' = Some (PInt 0)
   \<and> preferences (boot healthy sensor_format_device) ''log_0''
       = Some (PBytes (SensorData_bytes sample_reading))
   \<and> preferences (boot healthy sensor_format_device) ''log_1''
       = Some (PBytes (SensorData_bytes sample_reading))"
proof -
  let ?d = "sensor_format_device\<lparr>logIndex := 2\<rparr>"
  let ?b = "boot healthy sensor_format_device"
  have a: "load_entry healthy ?d 0 = Some sample_record" by code_simp
  have b: "load_entry healthy ?d 1 = Some sample_record" by code_simp
  have c: "logIndex ?b = 0" by code_simp
  have d: "\<not> useLittleFS ?b" by code_simp
  have e: "preferences ?b ''logIndex'' = Some (PInt 0)" by code_simp
  have f: "preferences ?b ''log_0'' = Some (PBytes (SensorData_bytes sample_reading))"
    by code_simp
  have g: "preferences ?b ''log_1'' = Some (PBytes (SensorData_bytes sample_reading))"
    by code_simp
  from a b c d e f g show ?thesis by (intro conjI)
qed

end
